theory Spec2Isabelle
  imports Main "HOL-Library.Sublist"
begin

section \<open>Strings, delimiters and the tokenizer\<close>

text \<open>
  A template is a \<^typ>\<open>string\<close>: the sequence of code units of the JavaScript string,
  restricted to the code units below 256. The six delimiters are the constants of the
  object \<^verbatim>\<open>tokens\<close> in \<^verbatim>\<open>src/index.js\<close>.
\<close>

definition TSTART :: string where "TSTART = ''{%''"
definition TEND :: string where "TEND = ''%}''"
definition ESTART :: string where "ESTART = ''{{''"
definition EEND :: string where "EEND = ''}}''"
definition CSTART :: string where "CSTART = ''{#''"
definition CEND :: string where "CEND = ''#}''"

text \<open>\<^verbatim>\<open>Object.values(tokens)\<close>, in the order of the object literal.\<close>

definition tokens :: "string list" where
  "tokens = [TSTART, TEND, ESTART, EEND, CSTART, CEND]"

definition isToken :: "string \<Rightarrow> bool" where
  "isToken s = (s \<in> set tokens)"

text \<open>
  \<^verbatim>\<open>contents.split(regex)\<close> with \<^verbatim>\<open>regex = /({%|%}|{{|}}|{#|#})/g\<close>: the
  scan moves left to right; where the next two code units are one of the six delimiters the
  literal run read so far is emitted, then the delimiter (the capture group), and the scan
  resumes after it; the run that remains at the end of the input is emitted last, also
  when it is empty. All delimiters have length two, so at most one alternative matches at
  a position. The first argument is the literal run accumulated so far.
\<close>

fun split_from :: "string \<Rightarrow> string \<Rightarrow> string list" where
  "split_from lit [] = [lit]"
| "split_from lit [c] = [lit @ [c]]"
| "split_from lit (a # b # cs) =
     (if isToken [a, b] then lit # [a, b] # split_from [] cs
      else split_from (lit @ [a]) (b # cs))"

definition split :: "string \<Rightarrow> string list" where
  "split contents = split_from [] contents"

text \<open>
  The character class \<^verbatim>\<open>\s\<close> of a regular expression, and the characters removed by
  \<^verbatim>\<open>String.prototype.trim\<close>: white space and line terminators; below 256 these are
  tab, line feed, vertical tab, form feed, carriage return, space and no-break space.
\<close>

definition is_space :: "char \<Rightarrow> bool" where
  "is_space c = (c \<in> {CHR 0x09, CHR 0x0A, CHR 0x0B, CHR 0x0C, CHR 0x0D, CHR 0x20, CHR 0xA0})"

definition trim :: "string \<Rightarrow> string" where
  "trim s = rev (dropWhile is_space (rev (dropWhile is_space s)))"

text \<open>\<^verbatim>\<open>(item.match(/\n/g) || []).length\<close>: the number of line feeds of an item.\<close>

definition count_newlines :: "string \<Rightarrow> nat" where
  "count_newlines item = length (filter (\<lambda>c. c = CHR 0x0A) item)"

section \<open>Regular expressions of the tag interior\<close>

text \<open>
  A backtracking matcher tries the ways a quantifier can match in a fixed order and keeps
  the first way that lets the rest of the pattern match. \<open>star_splits p s\<close> lists the
  ways \<^verbatim>\<open>[p]*\<close> can match a prefix of \<open>s\<close>, as pairs (matched, rest), shortest
  first: the order a lazy quantifier tries them. A greedy quantifier tries them longest
  first.
\<close>

fun star_splits :: "(char \<Rightarrow> bool) \<Rightarrow> string \<Rightarrow> (string \<times> string) list" where
  "star_splits p [] = [([], [])]"
| "star_splits p (c # cs) =
     ([], c # cs) # (if p c then map (\<lambda>(m, r). (c # m, r)) (star_splits p cs) else [])"

definition greedy :: "(char \<Rightarrow> bool) \<Rightarrow> string \<Rightarrow> (string \<times> string) list" where
  "greedy p s = rev (star_splits p s)"

definition lazy :: "(char \<Rightarrow> bool) \<Rightarrow> string \<Rightarrow> (string \<times> string) list" where
  "lazy p s = star_splits p s"

definition first_match :: "'a list \<Rightarrow> 'a option" where
  "first_match ms = (case ms of [] \<Rightarrow> None | m # _ \<Rightarrow> Some m)"

text \<open>
  \<^verbatim>\<open>export const TAG = /^\s*([^\s]+)\s*([^]+)$/\<close> of \<^verbatim>\<open>src/index.js\<close>: the result
  of \<^verbatim>\<open>item.match(TAG)\<close> is the pair of the two capture groups of the first match in
  backtracking order, or \<open>None\<close> where the source gets \<^verbatim>\<open>null\<close>. The class
  \<^verbatim>\<open>[^]\<close> matches every character, and each \<^verbatim>\<open>+\<close> needs at least one.
\<close>

definition TAG :: "string \<Rightarrow> (string \<times> string) option" where
  "TAG item = first_match
     [(tagName, signature).
        (w1, r1) \<leftarrow> greedy is_space item,
        (tagName, r2) \<leftarrow> greedy (\<lambda>c. \<not> is_space c) r1, tagName \<noteq> [],
        (w2, r3) \<leftarrow> greedy is_space r2,
        (signature, r4) \<leftarrow> greedy (\<lambda>c. True) r3, signature \<noteq> [],
        r4 = []]"

text \<open>
  The nested stages of this search, innermost first, under names of their own: the second
  group with the end of the input, the white space before it, the name, the leading white
  space. \<open>TAG item\<close> is the first match of \<open>stage_F\<close> over the ways the leading
  white space can match.
\<close>

definition stage_K :: "string \<Rightarrow> string \<times> string \<Rightarrow> (string \<times> string) list" where
  "stage_K tagName =
     (\<lambda>(signature, r4).
        if signature \<noteq> [] then (if r4 = [] then [(tagName, signature)] else []) else [])"

definition stage_H :: "string \<Rightarrow> string \<times> string \<Rightarrow> (string \<times> string) list" where
  "stage_H tagName = (\<lambda>(w2, r3). concat (map (stage_K tagName) (greedy (\<lambda>c. True) r3)))"

definition stage_G :: "string \<times> string \<Rightarrow> (string \<times> string) list" where
  "stage_G =
     (\<lambda>(tagName, r2).
        if tagName \<noteq> [] then concat (map (stage_H tagName) (greedy is_space r2)) else [])"

definition stage_F :: "string \<times> string \<Rightarrow> (string \<times> string) list" where
  "stage_F = (\<lambda>(w1, r1). concat (map stage_G (greedy (\<lambda>c. \<not> is_space c) r1)))"

text \<open>
  The pattern \<^verbatim>\<open>/^\s*([^\s]+)\s*(.*?)\s*$/\<close> of the earlier engine
  (\<^verbatim>\<open>Feuille.parse\<close>): the dot matches every character but a line terminator (below
  256: line feed and carriage return), and \<^verbatim>\<open>*?\<close> is lazy.
\<close>

definition is_dot :: "char \<Rightarrow> bool" where
  "is_dot c = (c \<noteq> CHR 0x0A \<and> c \<noteq> CHR 0x0D)"

definition TAG_Feuille :: "string \<Rightarrow> (string \<times> string) option" where
  "TAG_Feuille item = first_match
     [(tagName, signature).
        (w1, r1) \<leftarrow> greedy is_space item,
        (tagName, r2) \<leftarrow> greedy (\<lambda>c. \<not> is_space c) r1, tagName \<noteq> [],
        (w2, r3) \<leftarrow> greedy is_space r2,
        (signature, r4) \<leftarrow> lazy is_dot r3,
        (w3, r5) \<leftarrow> greedy is_space r4,
        r5 = []]"

section \<open>Nodes, the tag registry and the tree\<close>

text \<open>
  The three roles \<^verbatim>\<open>types.$tag_start\<close>, \<^verbatim>\<open>types.$tag_end\<close> and
  \<^verbatim>\<open>types.$tag_inside\<close>.
\<close>

datatype tag_type = tag_start | tag_end | tag_inside

text \<open>
  A tag class (the \<^verbatim>\<open>ctor\<close> of \<^verbatim>\<open>addTag\<close>), with the static fields the engine
  reads. Classes are compared by identity in the source; \<open>ctor_id\<close> stands for that
  identity. \<^verbatim>\<open>insideTagNames\<close> may be absent (\<open>None\<close>).
\<close>

record tag_ctor =
  ctor_id :: nat
  tagNames :: "string list"
  insideTagNames :: "string list option"
  singular :: bool

text \<open>
  The node classes of \<^verbatim>\<open>node-types.js\<close>. A tag node is built by
  \<^verbatim>\<open>new ctor(tagName, type, signature.trim())\<close> and keeps its class, its name, its role
  (\<^verbatim>\<open>$typeof\<close>) and its signature. The arguments a tag class parses from the
  signature when the node is built are a function of the signature and are not kept
  apart; building a node is taken to succeed. \<^verbatim>\<open>node.singular\<close> is the flag
  \<open>singular\<close> of the class of the node.
\<close>

datatype node =
    Root
  | Text string
  | Expression string
  | Tag tag_ctor string tag_type string

text \<open>
  \<^verbatim>\<open>node.constructor\<close> as far as the parser compares it with a registered tag class:
  the classes of Root, Text and Expression are no tag classes.
\<close>

fun node_ctor :: "node \<Rightarrow> tag_ctor option" where
  "node_ctor (Tag ctor tagName type signature) = Some ctor"
| "node_ctor n = None"

fun node_typeof :: "node \<Rightarrow> tag_type option" where
  "node_typeof (Tag ctor tagName type signature) = Some type"
| "node_typeof n = None"

text \<open>
  The registry \<^verbatim>\<open>this.tags\<close>: a plain object (\<^verbatim>\<open>this.tags = {}\<close>) whose
  own properties bind a tag name to the pair \<^verbatim>\<open>[ctor, type]\<close>. The map holds the
  own properties.
\<close>

type_synonym registry = "string \<rightharpoonup> (tag_ctor \<times> tag_type)"

text \<open>
  The property names a plain object inherits from \<^verbatim>\<open>Object.prototype\<close>. Each is
  bound to a function, and \<^verbatim>\<open>__proto__\<close> to the prototype object itself: a value
  that is truthy and not iterable.
\<close>

definition object_prototype_names :: "string list" where
  "object_prototype_names =
     [''constructor'', ''hasOwnProperty'', ''isPrototypeOf'', ''propertyIsEnumerable'',
      ''toLocaleString'', ''toString'', ''valueOf'', ''__defineGetter__'', ''__defineSetter__'',
      ''__lookupGetter__'', ''__lookupSetter__'', ''__proto__'']"

text \<open>
  \<^verbatim>\<open>tag(tagName)\<close>, which is \<^verbatim>\<open>this.tags[tagName]\<close>: an own property is
  found first (\<open>Entry\<close>); a name that is no own property is looked up in
  \<^verbatim>\<open>Object.prototype\<close> (\<open>Inherited\<close>); any other name yields
  \<^verbatim>\<open>undefined\<close>. An assignment to the key \<^verbatim>\<open>__proto__\<close> creates no own
  property but replaces the prototype of the object; a registry in which a class has
  registered that name is read here as holding the pair under that key (which is what the
  lookup of that key then yields), and the names it inherits from its new prototype are not
  modelled.
\<close>

datatype tag_lookup = Undefined | Entry "tag_ctor \<times> tag_type" | Inherited

definition tag :: "registry \<Rightarrow> string \<Rightarrow> tag_lookup" where
  "tag tags tagName =
     (case tags tagName of
        Some entry \<Rightarrow> Entry entry
      | None \<Rightarrow> if tagName \<in> set object_prototype_names then Inherited else Undefined)"

text \<open>
  \<^verbatim>\<open>addTag(ctor)\<close>: the two \<^verbatim>\<open>forEach\<close> loops, each a left fold of assignments
  to \<^verbatim>\<open>this.tags\<close>. \<open>end_name\<close> is the template literal \<^verbatim>\<open>`end${tagName}`\<close>.
\<close>

definition end_name :: "string \<Rightarrow> string" where
  "end_name tagName = ''end'' @ tagName"

definition add_opening :: "tag_ctor \<Rightarrow> registry \<Rightarrow> string \<Rightarrow> registry" where
  "add_opening ctor tags tagName =
     (let tags1 = tags(tagName \<mapsto> (ctor, tag_start))
      in if \<not> singular ctor then tags1(end_name tagName \<mapsto> (ctor, tag_end)) else tags1)"

definition add_inside :: "tag_ctor \<Rightarrow> registry \<Rightarrow> string \<Rightarrow> registry" where
  "add_inside ctor tags tagName = tags(tagName \<mapsto> (ctor, tag_inside))"

text \<open>\<^verbatim>\<open>ctor.insideTagNames || []\<close>\<close>

definition inside_names :: "tag_ctor \<Rightarrow> string list" where
  "inside_names ctor = (case insideTagNames ctor of None \<Rightarrow> [] | Some names \<Rightarrow> names)"

definition addTag :: "tag_ctor \<Rightarrow> registry \<Rightarrow> registry" where
  "addTag ctor tags =
     foldl (add_inside ctor) (foldl (add_opening ctor) tags (tagNames ctor)) (inside_names ctor)"

text \<open>
  The \<^verbatim>\<open>SymbolTree\<close> and the nodes it links. A node is known by its handle: the
  position at which it entered \<open>nodes\<close>. \<^verbatim>\<open>tree.parent(n)\<close> is \<open>parent_of t n\<close>
  (\<open>None\<close> for \<^verbatim>\<open>null\<close>), and \<^verbatim>\<open>tree.childrenIterator(n)\<close> runs through
  \<open>children_of t n\<close>. \<open>appendChild t ref n\<close> is
  \<^verbatim>\<open>tree.appendChild(ref, new ...)\<close>: the new node gets the next handle and becomes the
  last child of \<open>ref\<close>. An End node is built by the parser and never linked; it gets
  no handle.
\<close>

record symbol_tree =
  nodes :: "node list"
  parent_of :: "nat \<Rightarrow> nat option"
  children_of :: "nat \<Rightarrow> nat list"

definition fresh :: "symbol_tree \<Rightarrow> nat" where
  "fresh t = length (nodes t)"

definition appendChild :: "symbol_tree \<Rightarrow> nat \<Rightarrow> node \<Rightarrow> symbol_tree" where
  "appendChild t ref n =
     t\<lparr>nodes := nodes t @ [n],
       parent_of := (parent_of t)(fresh t \<mapsto> ref),
       children_of := (children_of t)(ref := children_of t ref @ [fresh t])\<rparr>"

definition node_at :: "symbol_tree \<Rightarrow> nat \<Rightarrow> node option" where
  "node_at t h = (if h < length (nodes t) then Some (nodes t ! h) else None)"

section \<open>The parser\<close>

datatype scope = sc_content | sc_tag | sc_expression | sc_comment

text \<open>
  The errors \<^verbatim>\<open>parse\<close> throws, one constructor for each message, with the line
  \<^verbatim>\<open>loc()\<close> reports and the values the message prints. \<open>NotIterable\<close> is the
  \<^verbatim>\<open>TypeError\<close> of the runtime at \<^verbatim>\<open>let [ctor, type] = t\<close> when \<^verbatim>\<open>t\<close>
  is not iterable. \<open>NullCursor\<close> stands for
  \<^verbatim>\<open>$head = tree.parent(parent)\<close> yielding \<^verbatim>\<open>null\<close>, after which the source
  can only fail. \<open>CantCloseFeuille\<close> is the message of the earlier engine, which
  prints no line.
\<close>

datatype error =
    Unexpected nat string
  | MissingTag nat
  | UnknownTag nat string
  | NotIterable
  | CantClose nat "node option" node
  | CantInclude nat node "node option"
  | UnexpectedEnd nat
  | LeftUnclosed "node option"
  | NullCursor
  | CantCloseFeuille "node option" node



text \<open>
  The variables of \<^verbatim>\<open>parse\<close> that change in the loop. The stack grows at its end,
  as the array does.
\<close>

record pstate =
  tree :: symbol_tree
  head :: nat
  stack :: "scope list"
  line :: nat
  line_count :: nat

definition loc :: "pstate \<Rightarrow> nat" where
  "loc st = line st - line_count st"

definition top :: "pstate \<Rightarrow> scope option" where
  "top st = (if stack st = [] then None else Some (last (stack st)))"

definition push :: "pstate \<Rightarrow> scope \<Rightarrow> pstate" where
  "push st sc = st\<lparr>stack := stack st @ [sc]\<rparr>"

definition pop :: "pstate \<Rightarrow> pstate" where
  "pop st = st\<lparr>stack := butlast (stack st)\<rparr>"

definition append_node :: "pstate \<Rightarrow> node \<Rightarrow> pstate" where
  "append_node st n = st\<lparr>tree := appendChild (tree st) (head st) n\<rparr>"

text \<open>The branch \<^verbatim>\<open>if (scope === 'tag')\<close> of \<^verbatim>\<open>Sontag.parse\<close>.\<close>

definition tag_item :: "registry \<Rightarrow> pstate \<Rightarrow> string \<Rightarrow> error + pstate" where
  "tag_item tags st item =
     (case TAG item of
        None \<Rightarrow> Inl (MissingTag (loc st))
      | Some (tagName, signature) \<Rightarrow>
          (case tag tags tagName of
             Undefined \<Rightarrow> Inl (UnknownTag (loc st) tagName)
           | Inherited \<Rightarrow> Inl NotIterable
           | Entry (ctor, type) \<Rightarrow>
               (let n = Tag ctor tagName type (trim signature);
                    h = node_at (tree st) (head st)
                in case type of
                     tag_start \<Rightarrow>
                       (if \<not> singular ctor
                        then Inr ((append_node st n)\<lparr>head := fresh (tree st)\<rparr>)
                        else Inr (append_node st n))
                   | tag_end \<Rightarrow>
                       (case parent_of (tree st) (head st) of
                          None \<Rightarrow> Inl (CantClose (loc st) h n)
                        | Some parent \<Rightarrow>
                            if map_option node_ctor h \<noteq> Some (Some ctor)
                            then Inl (CantClose (loc st) h n)
                            else if map_option node_typeof h = Some (Some tag_start)
                            then Inr (st\<lparr>head := parent\<rparr>)
                            else if map_option node_typeof h = Some (Some tag_inside)
                            then (case parent_of (tree st) parent of
                                    None \<Rightarrow> Inl NullCursor
                                  | Some grandparent \<Rightarrow> Inr (st\<lparr>head := grandparent\<rparr>))
                            else Inr st)
                   | tag_inside \<Rightarrow>
                       (case parent_of (tree st) (head st) of
                          None \<Rightarrow> Inl (CantInclude (loc st) n h)
                        | Some parent \<Rightarrow>
                            if map_option node_ctor h \<noteq> Some (Some ctor)
                            then Inl (CantInclude (loc st) n h)
                            else Inr ((append_node st n)\<lparr>head := fresh (tree st)\<rparr>)))))"

text \<open>
  One turn of the \<^verbatim>\<open>while\<close> loop of \<^verbatim>\<open>Sontag.parse\<close> on the item \<open>item\<close>:
  the line counters first, then the chain of \<^verbatim>\<open>if\<close> statements in the order of the
  source.
\<close>

definition count_lines :: "pstate \<Rightarrow> string \<Rightarrow> pstate" where
  "count_lines st item =
     st\<lparr>line := line st + count_newlines item, line_count := count_newlines item\<rparr>"

definition step :: "registry \<Rightarrow> pstate \<Rightarrow> string \<Rightarrow> error + pstate" where
  "step tags st0 item =
     (let st = count_lines st0 item;
          scope = top st
      in if item = CSTART then Inr (push st sc_comment)
         else if item = CEND then
           (if scope = Some sc_comment then Inr (pop st)
            else Inl (Unexpected (loc st) item))
         else if scope = Some sc_comment then Inr st
         else if item = ESTART then
           (if scope \<noteq> Some sc_content then Inl (Unexpected (loc st) item)
            else Inr (push st sc_expression))
         else if item = TSTART then
           (if scope \<noteq> Some sc_content then Inl (Unexpected (loc st) item)
            else Inr (push st sc_tag))
         else if item = EEND then
           (if scope = Some sc_expression then Inr (pop st)
            else Inl (Unexpected (loc st) item))
         else if item = TEND then
           (if scope = Some sc_tag then Inr (pop st)
            else Inl (Unexpected (loc st) item))
         else if scope = Some sc_content then Inr (append_node st (Text item))
         else if scope = Some sc_expression then Inr (append_node st (Expression item))
         else if scope = Some sc_tag then tag_item tags st item
         else Inr st)"

fun loop :: "registry \<Rightarrow> pstate \<Rightarrow> string list \<Rightarrow> error + pstate" where
  "loop tags st [] = Inr st"
| "loop tags st (item # items) =
     (case step tags st item of
        Inl e \<Rightarrow> Inl e
      | Inr st' \<Rightarrow> loop tags st' items)"

text \<open>The state before the loop: the tree holds \<^verbatim>\<open>$root\<close> alone, at handle 0.\<close>

definition root :: nat where
  "root = 0"

definition init :: pstate where
  "init = \<lparr>tree = \<lparr>nodes = [Root], parent_of = (\<lambda>n. None), children_of = (\<lambda>n. [])\<rparr>,
           head = root, stack = [sc_content], line = 1, line_count = 0\<rparr>"

text \<open>The two checks after the loop, and the result \<^verbatim>\<open>{ tree, $root }\<close>.\<close>

definition finish :: "pstate \<Rightarrow> error + symbol_tree \<times> nat" where
  "finish st =
     (if length (stack st) \<noteq> 1 then Inl (UnexpectedEnd (loc st))
      else if head st \<noteq> root then Inl (LeftUnclosed (node_at (tree st) (head st)))
      else Inr (tree st, root))"

definition parse :: "registry \<Rightarrow> string \<Rightarrow> error + symbol_tree \<times> nat" where
  "parse tags contents =
     (case loop tags init (split contents) of
        Inl e \<Rightarrow> Inl e
      | Inr st \<Rightarrow> finish st)"

section \<open>The parser of the earlier engine\<close>

text \<open>
  \<^verbatim>\<open>Feuille.parse\<close>: the same loop; the checks for \<^verbatim>\<open>}}\<close> and \<^verbatim>\<open>{%\<close> stand
  in the other order, the tag interior is matched by the older pattern and the signature
  is not trimmed again, an End tag always moves the cursor to the parent, and an Inside tag
  does nothing.
\<close>

definition Feuille_tag_item :: "registry \<Rightarrow> pstate \<Rightarrow> string \<Rightarrow> error + pstate" where
  "Feuille_tag_item tags st item =
     (case TAG_Feuille item of
        None \<Rightarrow> Inl (MissingTag (loc st))
      | Some (tagName, signature) \<Rightarrow>
          (case tag tags tagName of
             Undefined \<Rightarrow> Inl (UnknownTag (loc st) tagName)
           | Inherited \<Rightarrow> Inl NotIterable
           | Entry (ctor, type) \<Rightarrow>
               (let n = Tag ctor tagName type signature;
                    h = node_at (tree st) (head st)
                in case type of
                     tag_start \<Rightarrow>
                       (if \<not> singular ctor
                        then Inr ((append_node st n)\<lparr>head := fresh (tree st)\<rparr>)
                        else Inr (append_node st n))
                   | tag_end \<Rightarrow>
                       (case parent_of (tree st) (head st) of
                          None \<Rightarrow> Inl (CantCloseFeuille h n)
                        | Some parent \<Rightarrow>
                            if map_option node_ctor h \<noteq> Some (Some ctor)
                            then Inl (CantCloseFeuille h n)
                            else Inr (st\<lparr>head := parent\<rparr>))
                   | tag_inside \<Rightarrow> Inr st)))"

definition Feuille_step :: "registry \<Rightarrow> pstate \<Rightarrow> string \<Rightarrow> error + pstate" where
  "Feuille_step tags st0 item =
     (let st = count_lines st0 item;
          scope = top st
      in if item = CSTART then Inr (push st sc_comment)
         else if item = CEND then
           (if scope = Some sc_comment then Inr (pop st)
            else Inl (Unexpected (loc st) item))
         else if scope = Some sc_comment then Inr st
         else if item = ESTART then
           (if scope \<noteq> Some sc_content then Inl (Unexpected (loc st) item)
            else Inr (push st sc_expression))
         else if item = EEND then
           (if scope = Some sc_expression then Inr (pop st)
            else Inl (Unexpected (loc st) item))
         else if item = TSTART then
           (if scope \<noteq> Some sc_content then Inl (Unexpected (loc st) item)
            else Inr (push st sc_tag))
         else if item = TEND then
           (if scope = Some sc_tag then Inr (pop st)
            else Inl (Unexpected (loc st) item))
         else if scope = Some sc_content then Inr (append_node st (Text item))
         else if scope = Some sc_expression then Inr (append_node st (Expression item))
         else if scope = Some sc_tag then Feuille_tag_item tags st item
         else Inr st)"

fun Feuille_loop :: "registry \<Rightarrow> pstate \<Rightarrow> string list \<Rightarrow> error + pstate" where
  "Feuille_loop tags st [] = Inr st"
| "Feuille_loop tags st (item # items) =
     (case Feuille_step tags st item of
        Inl e \<Rightarrow> Inl e
      | Inr st' \<Rightarrow> Feuille_loop tags st' items)"

definition Feuille_parse :: "registry \<Rightarrow> string \<Rightarrow> error + symbol_tree \<times> nat" where
  "Feuille_parse tags contents =
     (case Feuille_loop tags init (split contents) of
        Inl e \<Rightarrow> Inl e
      | Inr st \<Rightarrow> finish st)"

section \<open>The tree in document order\<close>

text \<open>
  What \<^verbatim>\<open>tree.childrenIterator\<close> shows of the tree below a node, read depth first:
  a finite tree of handles. The links of a \<open>symbol_tree\<close> record are arbitrary
  functions, so the walk carries fuel; \<open>None\<close> says that the fuel ran out or that a
  link leads to no node.
\<close>

datatype 'a rtree = Node 'a "'a rtree list"

fun preorder :: "'a rtree \<Rightarrow> 'a list" where
  "preorder (Node a cs) = a # concat (map preorder cs)"

fun subtree :: "nat \<Rightarrow> symbol_tree \<Rightarrow> nat \<Rightarrow> nat rtree option" where
  "subtree 0 t h = None"
| "subtree (Suc fuel) t h =
     (if h < length (nodes t)
      then map_option (Node h) (those (map (subtree fuel t) (children_of t h)))
      else None)"

definition ast :: "symbol_tree \<Rightarrow> nat \<Rightarrow> node rtree option" where
  "ast t r = map_option (map_rtree (\<lambda>h. nodes t ! h)) (subtree (length (nodes t)) t r)"



section \<open>The render engine\<close>

text \<open>
  \<^verbatim>\<open>node.render(scope, env, children)\<close> is code of the tag classes; the engine takes
  it as the parameter \<open>render\<close>. Rendering is asynchronous: a render may suspend on
  outside work and the engine awaits it. \<open>'w\<close> is the state of that outside world
  (its clock included); awaiting is running to completion, so each call maps the world
  before it to its result and the world after it. A render returns a string, or a function
  awaiting the selector. An absent argument (\<^verbatim>\<open>undefined\<close>) is \<open>None\<close>.
\<close>

datatype ('c, 'w) render_result =
    Resolved string
  | Deferred "'c option \<Rightarrow> 'w \<Rightarrow> string \<times> 'w"

type_synonym ('s, 'c, 'w) children_renderer = "'s \<Rightarrow> 'c option \<Rightarrow> 'w \<Rightarrow> string \<times> 'w"

type_synonym ('s, 'c, 'w) renderer =
  "node \<Rightarrow> 's \<Rightarrow> ('s, 'c, 'w) children_renderer \<Rightarrow> 'w \<Rightarrow> ('c, 'w) render_result \<times> 'w"

text \<open>
  \<^verbatim>\<open>Sontag.apply(tree, $root, scope, condition)\<close>, and the loop of the closure it
  hands to \<^verbatim>\<open>render\<close>: \<open>res\<close> is the array the loop pushes to, joined at the end.
\<close>

fun Sontag_apply ::
    "('s, 'c, 'w) renderer \<Rightarrow> node rtree \<Rightarrow> 's \<Rightarrow> 'c option \<Rightarrow> 'w \<Rightarrow> string \<times> 'w"
  and children_loop ::
    "('s, 'c, 'w) renderer \<Rightarrow> node rtree list \<Rightarrow> string list \<Rightarrow> 's \<Rightarrow> 'c option \<Rightarrow> 'w
       \<Rightarrow> string \<times> 'w"
where
  "Sontag_apply render (Node n cs) scope condition w =
     (case render n scope
             (\<lambda>outer_scope condition' w'. children_loop render cs [] outer_scope condition' w') w of
        (Resolved s, w1) \<Rightarrow> (s, w1)
      | (Deferred res, w1) \<Rightarrow> res condition w1)"
| "children_loop render [] res outer_scope condition w = (concat res, w)"
| "children_loop render (c # cs) res outer_scope condition w =
     (case Sontag_apply render c outer_scope condition w of
        (s, w1) \<Rightarrow> children_loop render cs (res @ [s]) outer_scope condition w1)"

text \<open>
  The results of \<open>Sontag_apply\<close> on the children of a node, in the order of the
  child list, each child applied in the world its elder sibling left; and that world after
  the last child.
\<close>

fun child_outputs ::
    "('s, 'c, 'w) renderer \<Rightarrow> node rtree list \<Rightarrow> 's \<Rightarrow> 'c option \<Rightarrow> 'w \<Rightarrow> string list \<times> 'w"
where
  "child_outputs render [] outer_scope condition w = ([], w)"
| "child_outputs render (c # cs) outer_scope condition w =
     (case Sontag_apply render c outer_scope condition w of
        (s, w1) \<Rightarrow>
          (case child_outputs render cs outer_scope condition w1 of
             (ss, w2) \<Rightarrow> (s # ss, w2)))"

definition childrenRenderer ::
    "('s, 'c, 'w) renderer \<Rightarrow> node rtree list \<Rightarrow> ('s, 'c, 'w) children_renderer" where
  "childrenRenderer render cs = (\<lambda>outer_scope condition w. children_loop render cs [] outer_scope condition w)"

section \<open>Scope objects\<close>

text \<open>
  A JavaScript object as far as scopes need it: its own enumerable properties and its
  prototype (\<open>None\<close> for \<^verbatim>\<open>Object.prototype\<close>, which binds no name of a template).
  \<open>get_prop\<close> is property lookup, which walks the prototype chain.
\<close>

datatype 'v jsobject = Object (own: "string \<Rightarrow> 'v option") (proto: "'v jsobject option")



text \<open>
  \<^verbatim>\<open>Object.assign(Object.create(this.global_scope), context)\<close> of
  \<^verbatim>\<open>renderString\<close>: a new object whose prototype is the global scope and whose own
  properties are copies of the own properties of the context.
\<close>

definition create_scope :: "'v jsobject \<Rightarrow> 'v jsobject \<Rightarrow> 'v jsobject" where
  "create_scope global context = Object (Map.empty ++ own context) (Some global)"

text \<open>
  \<^verbatim>\<open>renderString(contents, context)\<close>. The outer \<open>None\<close> says that the links of
  the parsed tree do not form a finite tree, where the traversal of the source would not
  end.
\<close>

definition renderString ::
    "('v jsobject, 'c, 'w) renderer \<Rightarrow> registry \<Rightarrow> 'v jsobject \<Rightarrow> string \<Rightarrow> 'v jsobject \<Rightarrow> 'w
       \<Rightarrow> (error + string \<times> 'w) option" where
  "renderString render tags global contents context w =
     (let scope = create_scope global context
      in case parse tags contents of
           Inl e \<Rightarrow> Some (Inl e)
         | Inr (t, r) \<Rightarrow>
             map_option (\<lambda>T. Inr (Sontag_apply render T scope None w)) (ast t r))"



section \<open>Accepted templates and their content, without the tree\<close>

text \<open>
  The scope automaton of section 4.2 of the specification on its own: the stack after an
  item, or \<open>None\<close> where the delimiter is invalid for the top context. In a comment
  the comment-open delimiter opens a nested comment, as in the source.
\<close>

definition top_of :: "scope list \<Rightarrow> scope option" where
  "top_of stk = (if stk = [] then None else Some (last stk))"

definition automaton :: "scope list \<Rightarrow> string \<Rightarrow> scope list option" where
  "automaton stk item =
     (if item = CSTART then Some (stk @ [sc_comment])
      else if top_of stk = Some sc_comment then
        (if item = CEND then Some (butlast stk) else Some stk)
      else if item = ESTART then
        (if top_of stk = Some sc_content then Some (stk @ [sc_expression]) else None)
      else if item = TSTART then
        (if top_of stk = Some sc_content then Some (stk @ [sc_tag]) else None)
      else if item = EEND then
        (if top_of stk = Some sc_expression then Some (butlast stk) else None)
      else if item = TEND then
        (if top_of stk = Some sc_tag then Some (butlast stk) else None)
      else if item = CEND then None
      else Some stk)"





text \<open>
  The parser without its tree, for the proofs: the stack of the open tag nodes (class and
  role, innermost first) takes the place of the tree and its cursor, and \<open>nest\<close>
  does to that stack what the tag branch of \<^verbatim>\<open>parse\<close> does to the cursor. A Start
  tag that is not singular opens a frame; an Inside tag needs a frame of its class on top
  and opens a frame above it; an End tag needs a frame of its class on top and closes it,
  together with the frame below when the top frame is an Inside frame.
\<close>

type_synonym frame = "tag_ctor \<times> tag_type"

fun nest :: "frame list \<Rightarrow> frame \<Rightarrow> frame list option" where
  "nest path (ctor, tag_start) = Some (if singular ctor then path else (ctor, tag_start) # path)"
| "nest [] (ctor, tag_inside) = None"
| "nest ((c, r) # path) (ctor, tag_inside) =
     (if c = ctor then Some ((ctor, tag_inside) # (c, r) # path) else None)"
| "nest [] (ctor, tag_end) = None"
| "nest ((c, r) # path) (ctor, tag_end) =
     (if c \<noteq> ctor then None
      else if r = tag_start then Some path
      else if r = tag_inside then (case path of [] \<Rightarrow> None | below # path' \<Rightarrow> Some path')
      else Some ((c, r) # path))"

definition accept_step ::
    "registry \<Rightarrow> scope list \<times> frame list \<Rightarrow> string \<Rightarrow> (scope list \<times> frame list) option" where
  "accept_step tags state item =
     (case state of (stk, path) \<Rightarrow>
        (case automaton stk item of
           None \<Rightarrow> None
         | Some stk' \<Rightarrow>
             if \<not> isToken item \<and> top_of stk = Some sc_tag
             then (case TAG item of
                     None \<Rightarrow> None
                   | Some (tagName, signature) \<Rightarrow>
                       (case tag tags tagName of
                          Entry fr \<Rightarrow> map_option (Pair stk') (nest path fr)
                        | _ \<Rightarrow> None))
             else Some (stk', path)))"

fun accept :: "registry \<Rightarrow> scope list \<times> frame list \<Rightarrow> string list
    \<Rightarrow> (scope list \<times> frame list) option" where
  "accept tags state [] = Some state"
| "accept tags state (item # items) =
     (case accept_step tags state item of
        None \<Rightarrow> None
      | Some state' \<Rightarrow> accept tags state' items)"

section \<open>The content and the tags of a template, in the words of the specification\<close>

text \<open>
  The literal and expression content of a template, read from its text one code unit at a
  time: where the next two code units are a delimiter, the delimiter moves the contexts as
  the automaton says (nothing is read past a delimiter that is invalid where it stands);
  any other code unit belongs to the content when the context is \<open>content\<close> or
  \<open>expression\<close>. Delimiters, tag interiors and what a comment holds are left out.
\<close>

definition kept :: "scope list \<Rightarrow> string \<Rightarrow> string" where
  "kept stk s =
     (if top_of stk = Some sc_content \<or> top_of stk = Some sc_expression then s else [])"








section \<open>Example tag classes\<close>

text \<open>
  The catalogue of built-in tags is not part of the engine. Two classes of the usual
  shape serve as concrete inputs: a conditional with Inside names and a singular tag.
\<close>

definition IfTag :: tag_ctor where
  "IfTag = \<lparr>ctor_id = 0, tagNames = [''if''],
            insideTagNames = Some [''elseif'', ''else''], singular = False\<rparr>"

definition SetTag :: tag_ctor where
  "SetTag = \<lparr>ctor_id = 1, tagNames = [''set''], insideTagNames = None, singular = True\<rparr>"

definition example_tags :: registry where
  "example_tags = addTag SetTag (addTag IfTag Map.empty)"

text \<open>
  The render functions of the node classes are no part of the engine either. A renderer of
  the shape the protocol expects, over a world that is a clock: a Text node resolves to its
  text at once, an Expression node resolves to its source after 100 ticks of suspended
  work, the root and a Start node render their children, a Start node handing its
  signature down as the selector, and an Inside node defers: it renders its children when
  the selector is its own name and nothing otherwise.
\<close>

fun example_render :: "('s, string, nat) renderer" where
  "example_render Root scope children w =
     (case children scope None w of (s, w1) \<Rightarrow> (Resolved s, w1))"
| "example_render (Text s) scope children w = (Resolved s, w)"
| "example_render (Expression s) scope children w = (Resolved s, w + 100)"
| "example_render (Tag ctor tagName tag_start signature) scope children w =
     (case children scope (Some signature) w of (s, w1) \<Rightarrow> (Resolved s, w1))"
| "example_render (Tag ctor tagName tag_inside signature) scope children w =
     (Deferred (\<lambda>condition w1.
         if condition = Some tagName then children scope None w1 else ([], w1)), w)"
| "example_render (Tag ctor tagName tag_end signature) scope children w = (Resolved [], w)"



section \<open>Reading results\<close>

text \<open>
  The error of a failed run, and the state of the parser when the loop has read the given
  items (the initial state, should the loop fail on them).
\<close>

definition failure :: "error + 'a \<Rightarrow> error option" where
  "failure r = (case r of Inl e \<Rightarrow> Some e | Inr x \<Rightarrow> None)"

definition state_after :: "registry \<Rightarrow> string list \<Rightarrow> pstate" where
  "state_after tags items =
     (case loop tags init items of Inl e \<Rightarrow> init | Inr st \<Rightarrow> st)"

section \<open>The path from the cursor to the root\<close>

text \<open>
  The invariant of the tree under construction. \<open>spine t h path\<close> says that the
  parent links lead from the cursor \<open>h\<close> up to the root through the open tag nodes
  \<open>path\<close> (innermost first): each is a Start or Inside node, the last child of its
  parent and created after it, an Inside node is never a child of the root, and below each
  node of this path the traversal finds, in document order, exactly the handles from that
  node to the newest one. No handle beyond the newest one has children.
\<close>

inductive spine :: "symbol_tree \<Rightarrow> nat \<Rightarrow> frame list \<Rightarrow> bool" for t where
  spine_root:
    "nodes t \<noteq> [] \<Longrightarrow> nodes t ! 0 = Root \<Longrightarrow> parent_of t 0 = None \<Longrightarrow>
     \<forall>i \<ge> length (nodes t). children_of t i = [] \<Longrightarrow>
     subtree (length (nodes t)) t 0 = Some T \<Longrightarrow> preorder T = [0..<length (nodes t)] \<Longrightarrow>
     spine t 0 []"
| spine_node:
    "spine t p path \<Longrightarrow> parent_of t h = Some p \<Longrightarrow> p < h \<Longrightarrow> h < length (nodes t) \<Longrightarrow>
     nodes t ! h = Tag c nm r sg \<Longrightarrow> r \<noteq> tag_end \<Longrightarrow> (r = tag_inside \<longrightarrow> path \<noteq> []) \<Longrightarrow>
     children_of t p = cs @ [h] \<Longrightarrow>
     subtree (length (nodes t) - h) t h = Some T \<Longrightarrow> preorder T = [h..<length (nodes t)] \<Longrightarrow>
     spine t h ((c, r) # path)"

section \<open>Basic facts\<close>

lemma failure_Some: "failure r = Some e \<longleftrightarrow> r = Inl e"
  by (cases r) (simp_all add: failure_def)

lemma failure_None: "failure r = None \<Longrightarrow> r = Inr (projr r)"
  by (cases r) (simp_all add: failure_def)


lemma count_lines_fields [simp]:
  "stack (count_lines st item) = stack st"
  "tree (count_lines st item) = tree st"
  "head (count_lines st item) = head st"
  "top (count_lines st item) = top st"
  by (simp_all add: count_lines_def top_def)

lemma token_neq [simp]:
  "CSTART \<noteq> CEND" "CSTART \<noteq> ESTART" "CSTART \<noteq> EEND" "CSTART \<noteq> TSTART" "CSTART \<noteq> TEND"
  "CEND \<noteq> ESTART" "CEND \<noteq> EEND" "CEND \<noteq> TSTART" "CEND \<noteq> TEND"
  "ESTART \<noteq> EEND" "ESTART \<noteq> TSTART" "ESTART \<noteq> TEND"
  "EEND \<noteq> TSTART" "EEND \<noteq> TEND" "TSTART \<noteq> TEND"
  by (simp_all add: CSTART_def CEND_def ESTART_def EEND_def TSTART_def TEND_def)

lemmas token_neq_sym [simp] = token_neq [symmetric]

lemma isToken_iff:
  "isToken s \<longleftrightarrow> s = TSTART \<or> s = TEND \<or> s = ESTART \<or> s = EEND \<or> s = CSTART \<or> s = CEND"
  by (auto simp: isToken_def tokens_def)


lemma step_tag_scope:
  "top st = Some sc_tag \<Longrightarrow> \<not> isToken item \<Longrightarrow>
   step tags st item = tag_item tags (count_lines st item) item"
  by (simp add: step_def Let_def isToken_iff)

lemma top_top_of: "top st = top_of (stack st)"
  by (simp add: top_def top_of_def)

lemma top_not_tag: "sc_tag \<notin> set (stack st) \<Longrightarrow> top st \<noteq> Some sc_tag"
  by (auto simp: top_def dest: last_in_set)

lemma finish_Inr:
  "finish st = Inr (t, r) \<longleftrightarrow> length (stack st) = 1 \<and> head st = root \<and> t = tree st \<and> r = root"
  by (auto simp: finish_def)

section \<open>Comments\<close>

lemma step_comment_other:
  "top st = Some sc_comment \<Longrightarrow> item \<noteq> CSTART \<Longrightarrow> item \<noteq> CEND \<Longrightarrow>
   step tags st item = Inr (count_lines st item)"
  by (simp add: step_def Let_def)

lemma step_CSTART: "step tags st CSTART = Inr (push (count_lines st CSTART) sc_comment)"
  by (simp add: step_def Let_def)

lemma step_comment_CEND:
  "top st = Some sc_comment \<Longrightarrow> step tags st CEND = Inr (pop (count_lines st CEND))"
  by (simp add: step_def Let_def)

lemma loop_comment_absorbs:
  "top st = Some sc_comment \<Longrightarrow> CSTART \<notin> set items \<Longrightarrow> CEND \<notin> set items \<Longrightarrow>
   loop tags st items = Inr (foldl count_lines st items)"
proof (induction items arbitrary: st)
  case Nil
  then show ?case by simp
next
  case (Cons item items)
  then have "step tags st item = Inr (count_lines st item)"
    by (intro step_comment_other) auto
  moreover have "top (count_lines st item) = Some sc_comment"
    using Cons.prems(1) by simp
  ultimately show ?case
    using Cons by simp
qed

lemma foldl_count_lines_fields [simp]:
  "stack (foldl count_lines st items) = stack st"
  "tree (foldl count_lines st items) = tree st"
  "head (foldl count_lines st items) = head st"
  by (induction items arbitrary: st) simp_all

text \<open>
  C2, as the code has it. While the top context is \<open>comment\<close>, every item other than
  the comment-open and the comment-end delimiter is absorbed: a run of such items changes
  neither the stack nor the tree nor the cursor (only the line counters). The comment-open
  delimiter is not absorbed: it pushes one more \<open>comment\<close> context, so comments
  nest, and each comment-end delimiter pops one context.
\<close>

theorem comment_absorbs_all_but_comment_delimiters:
  assumes "top st = Some sc_comment"
  shows "(CSTART \<notin> set items \<and> CEND \<notin> set items \<longrightarrow>
            loop tags st items = Inr (foldl count_lines st items)
          \<and> stack (foldl count_lines st items) = stack st
          \<and> tree (foldl count_lines st items) = tree st
          \<and> head (foldl count_lines st items) = head st)
       \<and> step tags st CSTART = Inr (push (count_lines st CSTART) sc_comment)
       \<and> stack (push (count_lines st CSTART) sc_comment) = stack st @ [sc_comment]
       \<and> step tags st CEND = Inr (pop (count_lines st CEND))
       \<and> stack (pop (count_lines st CEND)) = butlast (stack st)"
  using assms
  by (simp add: loop_comment_absorbs step_CSTART step_comment_CEND push_def pop_def)

text \<open>
  The instance of the specification: inside \<^verbatim>\<open>{# this {{ is not an expr #}\<close> the
  expression-open delimiter is absorbed, and the template parses to two empty Text nodes and
  no Expression node.
\<close>

theorem comment_absorbs_witness:
  "loop example_tags (state_after example_tags [[], CSTART]) ['' this '', ESTART, '' is not an expr '']
     = Inr (foldl count_lines (state_after example_tags [[], CSTART]) ['' this '', ESTART, '' is not an expr ''])
   \<and> map_sum id (\<lambda>(t, r). nodes t) (parse example_tags ''{# this {{ is not an expr #}'')
     = Inr [Root, Text [], Text []]"
proof -
  have 1: "top (state_after example_tags [[], CSTART]) = Some sc_comment"
    by code_simp
  have 2: "CSTART \<notin> set ['' this '', ESTART, '' is not an expr '']
           \<and> CEND \<notin> set ['' this '', ESTART, '' is not an expr '']"
    by code_simp
  have 3: "map_sum id (\<lambda>(t, r). nodes t) (parse example_tags ''{# this {{ is not an expr #}'')
     = Inr [Root, Text [], Text []]"
    by code_simp
  from comment_absorbs_all_but_comment_delimiters [OF 1, of "['' this '', ESTART, '' is not an expr '']" example_tags] 2 3
  show ?thesis by blast
qed

text \<open>
  C2 as stated fails for the comment-open delimiter: read inside a comment it deepens the
  stack, and \<^verbatim>\<open>{# {# #}\<close> is not closed by its first close marker.
\<close>

theorem comment_open_inside_comment_nests:
  "top (state_after Map.empty [[], CSTART]) = Some sc_comment \<and> CSTART \<noteq> CEND
   \<and> map_sum id stack (step Map.empty (state_after Map.empty [[], CSTART]) CSTART)
       = Inr [sc_content, sc_comment, sc_comment]
   \<and> stack (state_after Map.empty [[], CSTART]) = [sc_content, sc_comment]
   \<and> failure (parse Map.empty ''{# {# #}'') = Some (UnexpectedEnd 1)"
  by code_simp

section \<open>The tag interior\<close>

lemma TAG_stages: "TAG item = first_match (concat (map stage_F (greedy is_space item)))"
  unfolding TAG_def stage_F_def stage_G_def stage_H_def stage_K_def ..

lemma first_match_Cons [simp]: "first_match (x # xs) = Some x"
  by (simp add: first_match_def)

lemma first_match_Nil [simp]: "first_match [] = None"
  by (simp add: first_match_def)

lemma star_splits_all:
  "\<forall>c \<in> set m. p c \<Longrightarrow> \<exists>pre. star_splits p m = pre @ [(m, [])]"
proof (induction m)
  case Nil
  then show ?case by simp
next
  case (Cons a m)
  then obtain pre where "star_splits p m = pre @ [(m, [])]" by auto
  with Cons.prems show ?case
    by (intro exI [of _ "([], a # m) # map (\<lambda>(x, r). (a # x, r)) pre"]) simp
qed

lemma star_splits_append:
  "\<forall>c \<in> set m. p c \<Longrightarrow> r = [] \<or> \<not> p (hd r) \<Longrightarrow>
   star_splits p (m @ r) = map (\<lambda>(a, b). (a, b @ r)) (star_splits p m)"
proof (induction m)
  case Nil
  then show ?case by (cases r) auto
next
  case (Cons a m)
  then show ?case by (simp add: case_prod_unfold comp_def)
qed

lemma greedy_longest:
  assumes "\<forall>c \<in> set m. p c" and "r = [] \<or> \<not> p (hd r)"
  shows "\<exists>more. greedy p (m @ r) = (m, r) # more"
proof -
  from star_splits_all [OF assms(1)] obtain pre where "star_splits p m = pre @ [(m, [])]"
    by auto
  with star_splits_append [OF assms] show ?thesis
    by (simp add: greedy_def)
qed

lemma greedy_two_longest:
  assumes "\<forall>c \<in> set m. p c" and "p x"
  shows "\<exists>more. greedy p (m @ [x]) = (m @ [x], []) # (m, [x]) # more"
proof -
  from star_splits_all [OF assms(1)] obtain pre where pre: "star_splits p m = pre @ [(m, [])]"
    by auto
  have "star_splits p (m @ [x]) =
          map (\<lambda>(a, b). (a, b @ [x])) (star_splits p m) @ [(m @ [x], [])]"
    using assms(1)
  proof (induction m)
    case Nil
    with assms(2) show ?case by simp
  next
    case (Cons a m)
    then show ?case by (simp add: case_prod_unfold comp_def)
  qed
  with pre show ?thesis by (simp add: greedy_def)
qed

lemma greedy_none: "\<not> p x \<Longrightarrow> greedy p (x # r) = [([], x # r)]"
  by (simp add: greedy_def)

lemma stage_H_match:
  "r3 \<noteq> [] \<Longrightarrow> \<exists>more. stage_H tagName (w2, r3) = (tagName, r3) # more"
  using greedy_longest [of r3 "\<lambda>c. True" "[]"]
  by (auto simp: stage_H_def stage_K_def)

lemma stage_H_empty: "stage_H tagName (w2, []) = []"
  by (simp add: stage_H_def stage_K_def greedy_def)





text \<open>
  Where nothing follows a name of two or more characters, the pattern yields the name
  without its last character, and that character as the signature.
\<close>

lemma TAG_name_alone:
  assumes w: "\<forall>c \<in> set w. is_space c"
    and name: "\<forall>c \<in> set name. \<not> is_space c" "2 \<le> length name"
  shows "TAG (w @ name) = Some (butlast name, [last name])"
proof -
  from name(2) have ne: "name \<noteq> []" "butlast name \<noteq> []"
    by (cases name; cases "tl name"; auto)+
  then have "\<not> is_space (hd name)" using name(1) by (cases name) auto
  with greedy_longest [OF w, of name] ne obtain more1 where
    g1: "greedy is_space (w @ name) = (w, name) # more1" by auto
  have bl: "name = butlast name @ [last name]" using ne by simp
  have "\<forall>c \<in> set (butlast name). \<not> is_space c" "\<not> is_space (last name)"
    using name(1) ne by (auto dest: in_set_butlastD)
  from greedy_two_longest [of "butlast name" "\<lambda>c. \<not> is_space c" "last name", OF this] bl
  obtain more2 where
    g2: "greedy (\<lambda>c. \<not> is_space c) name = (name, []) # (butlast name, [last name]) # more2"
    by auto
  have e: "stage_G (name, []) = []"
    using ne by (simp add: stage_G_def greedy_def stage_H_empty)
  have "greedy is_space [last name] = [([], [last name])]"
    using \<open>\<not> is_space (last name)\<close> by (rule greedy_none)
  moreover from stage_H_match [of "[last name]" "butlast name" "[]"] obtain more3 where
    "stage_H (butlast name) ([], [last name]) = (butlast name, [last name]) # more3" by auto
  ultimately have "stage_G (butlast name, [last name]) = (butlast name, [last name]) # more3"
    using ne by (simp add: stage_G_def)
  with g1 g2 e show ?thesis
    by (simp add: TAG_stages stage_F_def)
qed


text \<open>
  C3 at the interior \<^verbatim>\<open>endif\<close>, which no character follows: the pattern needs one
  character for its second group and takes it from the name, so the registry is asked for
  \<^verbatim>\<open>endi\<close> with the signature \<^verbatim>\<open>f\<close>, and the registered closing tag is
  reported unknown. With a character after the name the name is whole, and the pattern of
  the earlier engine reads the name whole in both cases.
\<close>

theorem TAG_takes_last_character_of_name:
  "tag example_tags ''endif'' = Entry (IfTag, tag_end)
   \<and> TAG ''endif'' = Some (''endi'', ''f'')
   \<and> tag example_tags ''endi'' = Undefined
   \<and> failure (parse example_tags ''{% if x %}a{%endif%}'') = Some (UnknownTag 1 ''endi'')
   \<and> TAG ''endif '' = Some (''endif'', '' '')
   \<and> failure (parse example_tags ''{% if x %}a{%endif %}'') = None
   \<and> TAG_Feuille ''endif'' = Some (''endif'', [])"
  by code_simp

section \<open>The registry\<close>

lemma end_name_neq [simp]: "end_name n \<noteq> n" "n \<noteq> end_name n"
  by (auto simp: end_name_def dest: arg_cong [where f = length])

lemma end_name_inj [simp]: "end_name n = end_name m \<longleftrightarrow> n = m"
  by (simp add: end_name_def)










section \<open>The tree as the traversal reads it\<close>

lemma those_eq_Some: "those xs = Some ys \<longleftrightarrow> xs = map Some ys"
  by (induction xs arbitrary: ys) (auto split: option.splits)

lemma appendChild_fields [simp]:
  "nodes (appendChild t h0 x) = nodes t @ [x]"
  "parent_of (appendChild t h0 x) i = (if i = fresh t then Some h0 else parent_of t i)"
  "children_of (appendChild t h0 x) i =
     (if i = h0 then children_of t h0 @ [fresh t] else children_of t i)"
  by (simp_all add: appendChild_def)

lemma subtree_Suc_Some:
  "subtree (Suc f) t i = Some T \<longleftrightarrow>
     i < length (nodes t) \<and>
     (\<exists>Ts. T = Node i Ts \<and> map (subtree f t) (children_of t i) = map Some Ts)"
  by (auto simp: those_eq_Some)

lemma subtree_mono:
  "subtree f t i = Some T \<Longrightarrow> subtree (f + k) t i = Some T"
proof (induction f arbitrary: i T)
  case 0
  then show ?case by simp
next
  case (Suc f)
  from Suc.prems obtain Ts where a: "i < length (nodes t)" "T = Node i Ts"
      "map (subtree f t) (children_of t i) = map Some Ts"
    unfolding subtree_Suc_Some by blast
  have "map (subtree (f + k) t) (children_of t i) = map (subtree f t) (children_of t i)"
  proof (rule map_cong [OF refl])
    fix c assume "c \<in> set (children_of t i)"
    then have "subtree f t c \<in> set (map Some Ts)"
      using a(3) by (metis image_eqI set_map)
    then obtain Tc where "subtree f t c = Some Tc" by auto
    then show "subtree (f + k) t c = subtree f t c"
      using Suc.IH by simp
  qed
  with a show ?case
    using subtree_Suc_Some [of "f + k" t i T] by simp
qed

lemma subtree_mono_le:
  "subtree f t i = Some T \<Longrightarrow> f \<le> f' \<Longrightarrow> subtree f' t i = Some T"
  using subtree_mono [of f t i T "f' - f"] by simp

lemma subtree_frame:
  "subtree f t i = Some T \<Longrightarrow> h0 \<notin> set (preorder T) \<Longrightarrow>
   subtree f (appendChild t h0 x) i = Some T"
proof (induction f arbitrary: i T)
  case 0
  then show ?case by simp
next
  case (Suc f)
  from Suc.prems(1) obtain Ts where a: "i < length (nodes t)" "T = Node i Ts"
      "map (subtree f t) (children_of t i) = map Some Ts"
    unfolding subtree_Suc_Some by blast
  from Suc.prems(2) a(2) have ne: "i \<noteq> h0" and out: "\<forall>Tc \<in> set Ts. h0 \<notin> set (preorder Tc)"
    by auto
  have "map (subtree f (appendChild t h0 x)) (children_of t i) = map (subtree f t) (children_of t i)"
  proof (rule map_cong [OF refl])
    fix c assume "c \<in> set (children_of t i)"
    then have "subtree f t c \<in> set (map Some Ts)"
      using a(3) by (metis image_eqI set_map)
    then obtain Tc where "subtree f t c = Some Tc" "Tc \<in> set Ts" by auto
    then show "subtree f (appendChild t h0 x) c = subtree f t c"
      using Suc.IH out by simp
  qed
  with a ne show ?case
    using subtree_Suc_Some [of f "appendChild t h0 x" i T] by simp
qed

lemma upt_split3: "p < h \<Longrightarrow> h \<le> n \<Longrightarrow> [p..<n] = p # [Suc p..<h] @ [h..<n]"
proof -
  assume a: "p < h" "h \<le> n"
  then have "[p..<h + (n - h)] = [p..<h] @ [h..<h + (n - h)]"
    by (intro upt_add_eq_append) simp
  with a show ?thesis by (simp add: upt_conv_Cons)
qed

lemma snoc_eq_map_Some:
  "xs @ [y] = map Some Ts \<Longrightarrow> \<exists>Tcs T0. Ts = Tcs @ [T0] \<and> xs = map Some Tcs \<and> y = Some T0"
  by (induction Ts rule: rev_induct) auto

lemma append_at_head:
  assumes G: "\<forall>i \<ge> length (nodes t). children_of t i = []"
    and lt: "h0 < length (nodes t)"
    and sub: "subtree (length (nodes t) - h0) t h0 = Some T"
    and pre: "preorder T = [h0..<length (nodes t)]"
  shows "\<exists>T'. subtree (Suc (length (nodes t)) - h0) (appendChild t h0 x) h0 = Some T'
            \<and> preorder T' = [h0..<Suc (length (nodes t))]"
proof -
  let ?n = "length (nodes t)" and ?t' = "appendChild t h0 x"
  from lt obtain f where f: "?n - h0 = Suc f"
    by (metis Suc_diff_Suc)
  from sub f have "subtree (Suc f) t h0 = Some T" by simp
  then obtain Ts where a: "T = Node h0 Ts" "map (subtree f t) (children_of t h0) = map Some Ts"
    unfolding subtree_Suc_Some by auto
  from pre a(1) have "h0 # concat (map preorder Ts) = [h0..<?n]" by simp
  with lt have ch: "concat (map preorder Ts) = [Suc h0..<?n]"
    by (simp add: upt_conv_Cons)
  have old: "map (subtree (Suc f) ?t') (children_of t h0) = map Some Ts"
  proof -
    have "map (subtree (Suc f) ?t') (children_of t h0) = map (subtree f t) (children_of t h0)"
    proof (rule map_cong [OF refl])
      fix c assume "c \<in> set (children_of t h0)"
      then have "subtree f t c \<in> set (map Some Ts)"
        using a(2) by (metis image_eqI set_map)
      then obtain Tc where Tc: "subtree f t c = Some Tc" "Tc \<in> set Ts" by auto
      then have "set (preorder Tc) \<subseteq> set (concat (map preorder Ts))" by auto
      with ch have "h0 \<notin> set (preorder Tc)" by auto
      with Tc have "subtree f ?t' c = Some Tc" by (intro subtree_frame)
      then have "subtree (Suc f) ?t' c = Some Tc" by (rule subtree_mono_le) simp
      with Tc show "subtree (Suc f) ?t' c = subtree f t c" by simp
    qed
    with a(2) show ?thesis by simp
  qed
  have new: "subtree (Suc f) ?t' ?n = Some (Node ?n [])"
    using G lt by (simp add: fresh_def)
  have "Suc ?n - h0 = Suc (Suc f)" using f lt by simp
  moreover have "subtree (Suc (Suc f)) ?t' h0 = Some (Node h0 (Ts @ [Node ?n []]))"
    unfolding subtree_Suc_Some [of "Suc f"] using old new lt by (simp add: fresh_def)
  moreover have "preorder (Node h0 (Ts @ [Node ?n []])) = [h0..<Suc ?n]"
    using ch lt by (simp add: upt_conv_Cons)
  ultimately show ?thesis by simp
qed

lemma lift_to_parent:
  assumes ph: "p < h" and hh0: "h \<le> h0" and lt: "h0 < length (nodes t)"
    and ch: "children_of t p = cs @ [h]"
    and subp: "subtree (length (nodes t) - p) t p = Some Tp"
    and prep: "preorder Tp = [p..<length (nodes t)]"
    and subh: "subtree (length (nodes t) - h) t h = Some Th"
    and preh: "preorder Th = [h..<length (nodes t)]"
    and subh': "subtree (Suc (length (nodes t)) - h) (appendChild t h0 x) h = Some Th'"
    and preh': "preorder Th' = [h..<Suc (length (nodes t))]"
  shows "\<exists>Tp'. subtree (Suc (length (nodes t)) - p) (appendChild t h0 x) p = Some Tp'
            \<and> preorder Tp' = [p..<Suc (length (nodes t))]"
proof -
  let ?n = "length (nodes t)" and ?t' = "appendChild t h0 x"
  from ph hh0 lt obtain f where f: "?n - p = Suc f"
    by (metis Suc_diff_Suc less_le_trans less_trans)
  from subp f have "subtree (Suc f) t p = Some Tp" by simp
  then obtain Ts where a: "Tp = Node p Ts" "map (subtree f t) (cs @ [h]) = map Some Ts"
    unfolding subtree_Suc_Some ch by auto
  from a(2) have "map (subtree f t) cs @ [subtree f t h] = map Some Ts" by simp
  from snoc_eq_map_Some [OF this]
  obtain Tcs Th0 where Ts: "Ts = Tcs @ [Th0]" "map (subtree f t) cs = map Some Tcs"
      "subtree f t h = Some Th0"
    by blast
  have "?n - h \<le> f" using f ph by simp
  with subh have "subtree f t h = Some Th" by (rule subtree_mono_le)
  with Ts(3) have "Th0 = Th" by simp
  with prep a(1) Ts(1) preh have "p # concat (map preorder Tcs) @ [h..<?n] = [p..<?n]"
    by simp
  moreover have "[p..<?n] = p # [Suc p..<h] @ [h..<?n]"
    using ph hh0 lt by (intro upt_split3) simp_all
  ultimately have mid: "concat (map preorder Tcs) = [Suc p..<h]" by simp
  have old: "map (subtree (Suc f) ?t') cs = map Some Tcs"
  proof -
    have "map (subtree (Suc f) ?t') cs = map (subtree f t) cs"
    proof (rule map_cong [OF refl])
      fix c assume "c \<in> set cs"
      then have "subtree f t c \<in> set (map Some Tcs)"
        using Ts(2) by (metis image_eqI set_map)
      then obtain Tc where Tc: "subtree f t c = Some Tc" "Tc \<in> set Tcs" by auto
      then have "set (preorder Tc) \<subseteq> set (concat (map preorder Tcs))" by auto
      with mid hh0 have "h0 \<notin> set (preorder Tc)" by auto
      with Tc have "subtree f ?t' c = Some Tc" by (intro subtree_frame)
      then have "subtree (Suc f) ?t' c = Some Tc" by (rule subtree_mono_le) simp
      with Tc show "subtree (Suc f) ?t' c = subtree f t c" by simp
    qed
    with Ts(2) show ?thesis by simp
  qed
  have "Suc ?n - h \<le> Suc f" using f ph by simp
  with subh' have new: "subtree (Suc f) ?t' h = Some Th'" by (rule subtree_mono_le)
  have pn: "p \<noteq> h0" "p < ?n" using ph hh0 lt by simp_all
  have "Suc ?n - p = Suc (Suc f)" using f pn by simp
  moreover have "subtree (Suc (Suc f)) ?t' p = Some (Node p (Tcs @ [Th']))"
    unfolding subtree_Suc_Some [of "Suc f"] using old new pn ch by simp
  moreover have "preorder (Node p (Tcs @ [Th'])) = [p..<Suc ?n]"
    using mid preh' upt_split3 [of p h "Suc ?n"] ph hh0 lt by simp
  ultimately show ?thesis by simp
qed


section \<open>The invariant of the tree under construction\<close>

lemma spine_lt: "spine t h path \<Longrightarrow> h < length (nodes t)"
  by (induction rule: spine.induct) simp_all

lemma spine_no_children_beyond: "spine t h path \<Longrightarrow> \<forall>i \<ge> length (nodes t). children_of t i = []"
  by (induction rule: spine.induct) simp_all

lemma spine_subtree:
  "spine t h path \<Longrightarrow>
   \<exists>T. subtree (length (nodes t) - h) t h = Some T \<and> preorder T = [h..<length (nodes t)]"
  by (induction rule: spine.induct) simp_all

lemma spine_root_iff: "spine t h path \<Longrightarrow> (h = 0 \<longleftrightarrow> path = [])"
  by (induction rule: spine.induct) simp_all

lemma spine_lift:
  assumes "spine t h path" and "h \<le> h0" and "h0 < length (nodes t)"
    and "\<exists>T'. subtree (Suc (length (nodes t)) - h) (appendChild t h0 x) h = Some T'
            \<and> preorder T' = [h..<Suc (length (nodes t))]"
  shows "spine (appendChild t h0 x) h path"
  using assms
proof (induction rule: spine.induct)
  case (spine_root T)
  from spine_root.prems(3) obtain T' where
    T': "subtree (Suc (length (nodes t))) (appendChild t h0 x) 0 = Some T'"
        "preorder T' = [0..<Suc (length (nodes t))]"
    by auto
  show ?case
  proof (rule spine.spine_root [where T = T'])
    show "nodes (appendChild t h0 x) \<noteq> []" by simp
    show "nodes (appendChild t h0 x) ! 0 = Root"
      using spine_root.hyps(1,2) by (simp add: nth_append)
    show "parent_of (appendChild t h0 x) 0 = None"
      using spine_root.hyps(1,3) by (simp add: fresh_def)
    show "\<forall>i\<ge>length (nodes (appendChild t h0 x)). children_of (appendChild t h0 x) i = []"
      using spine_root.hyps(4) spine_root.prems(2) by simp
    show "subtree (length (nodes (appendChild t h0 x))) (appendChild t h0 x) 0 = Some T'"
      using T'(1) by simp
    show "preorder T' = [0..<length (nodes (appendChild t h0 x))]"
      using T'(2) by simp
  qed
next
  case (spine_node p path h c nm r sg cs T)
  from spine_node.prems(3) obtain T' where
    T': "subtree (Suc (length (nodes t)) - h) (appendChild t h0 x) h = Some T'"
        "preorder T' = [h..<Suc (length (nodes t))]"
    by auto
  from spine_subtree [OF spine_node.hyps(1)] obtain Tp where
    Tp: "subtree (length (nodes t) - p) t p = Some Tp" "preorder Tp = [p..<length (nodes t)]"
    by auto
  have up: "\<exists>Tp'. subtree (Suc (length (nodes t)) - p) (appendChild t h0 x) p = Some Tp'
            \<and> preorder Tp' = [p..<Suc (length (nodes t))]"
    using spine_node.hyps(3) spine_node.prems(1,2) spine_node.hyps(8) Tp
      spine_node.hyps(9,10) T'
    by (rule lift_to_parent)
  have sp: "spine (appendChild t h0 x) p path"
    using spine_node.IH spine_node.hyps(3) spine_node.prems(1,2) up by simp
  show ?case
  proof (rule spine.spine_node [where T = T' and cs = cs and nm = nm and sg = sg, OF sp])
    show "parent_of (appendChild t h0 x) h = Some p"
      using spine_node.hyps(2,4) by (simp add: fresh_def)
    show "p < h" by fact
    show "h < length (nodes (appendChild t h0 x))"
      using spine_node.hyps(4) by simp
    show "nodes (appendChild t h0 x) ! h = Tag c nm r sg"
      using spine_node.hyps(4,5) by (simp add: nth_append)
    show "r \<noteq> tag_end" by fact
    show "r = tag_inside \<longrightarrow> path \<noteq> []" by fact
    show "children_of (appendChild t h0 x) p = cs @ [h]"
      using spine_node.hyps(3,8) spine_node.prems(1) by simp
    show "subtree (length (nodes (appendChild t h0 x)) - h) (appendChild t h0 x) h = Some T'"
      using T'(1) by simp
    show "preorder T' = [h..<length (nodes (appendChild t h0 x))]"
      using T'(2) by simp
  qed
qed

lemma spine_append:
  assumes "spine t h0 path"
  shows "spine (appendChild t h0 x) h0 path"
proof -
  from spine_subtree [OF assms] obtain T where
    T: "subtree (length (nodes t) - h0) t h0 = Some T" "preorder T = [h0..<length (nodes t)]"
    by auto
  have "\<exists>T'. subtree (Suc (length (nodes t)) - h0) (appendChild t h0 x) h0 = Some T'
            \<and> preorder T' = [h0..<Suc (length (nodes t))]"
    using spine_no_children_beyond [OF assms] spine_lt [OF assms] T
    by (rule append_at_head)
  with assms spine_lt [OF assms] show ?thesis
    by (intro spine_lift) simp_all
qed

lemma spine_descend:
  assumes "spine t h0 path" and "r \<noteq> tag_end" and "r = tag_inside \<longrightarrow> path \<noteq> []"
  shows "spine (appendChild t h0 (Tag c nm r sg)) (fresh t) ((c, r) # path)"
proof (rule spine.spine_node [where T = "Node (fresh t) []" and cs = "children_of t h0"
      and nm = nm and sg = sg, OF spine_append [OF assms(1)]])
  let ?t' = "appendChild t h0 (Tag c nm r sg)"
  show "parent_of ?t' (fresh t) = Some h0" by simp
  show "h0 < fresh t" using spine_lt [OF assms(1)] by (simp add: fresh_def)
  show "fresh t < length (nodes ?t')" by (simp add: fresh_def)
  show "nodes ?t' ! fresh t = Tag c nm r sg" by (simp add: fresh_def)
  show "r \<noteq> tag_end" by fact
  show "r = tag_inside \<longrightarrow> path \<noteq> []" by fact
  show "children_of ?t' h0 = children_of t h0 @ [fresh t]" by simp
  have "children_of t (fresh t) = []"
    using spine_no_children_beyond [OF assms(1)] by (simp add: fresh_def)
  moreover have "fresh t \<noteq> h0" using spine_lt [OF assms(1)] by (simp add: fresh_def)
  ultimately show "subtree (length (nodes ?t') - fresh t) ?t' (fresh t) = Some (Node (fresh t) [])"
    by (simp add: fresh_def)
  show "preorder (Node (fresh t) []) = [fresh t..<length (nodes ?t')]"
    by (simp add: fresh_def)
qed

lemma spine_init: "spine (tree init) (head init) []"
  unfolding init_def root_def
  by (simp, rule spine.spine_root [where T = "Node 0 []"]) simp_all

lemma spine_node_at: "spine t h path \<Longrightarrow> node_at t h = Some (nodes t ! h)"
  by (simp add: node_at_def spine_lt)

lemma spine_tag_parent:
  assumes "spine t h path" and "node_at t h = Some (Tag c nm r sg)"
  shows "\<exists>p. parent_of t h = Some p \<and> (r = tag_inside \<longrightarrow> (\<exists>g. parent_of t p = Some g))"
  using assms(1)
proof (cases rule: spine.cases)
  case (spine_root T)
  with assms(2) show ?thesis by (simp add: node_at_def)
next
  case (spine_node p path0 c0 nm0 r0 sg0 cs T)
  with assms(2) have r: "r0 = r" by (simp add: node_at_def)
  show ?thesis
  proof (cases "r = tag_inside")
    case False
    with spine_node show ?thesis by simp
  next
    case True
    with r spine_node have "path0 \<noteq> []" by simp
    with spine_node(2) obtain g where "parent_of t p = Some g"
      by (cases rule: spine.cases) auto
    with spine_node show ?thesis by simp
  qed
qed


lemma ast_root_of_spine:
  assumes "spine t 0 []"
  shows "\<exists>cs. ast t 0 = Some (Node Root cs)"
proof -
  from assms obtain T0 where T0: "subtree (length (nodes t)) t 0 = Some T0" "nodes t \<noteq> []"
      "nodes t ! 0 = Root"
    by (cases rule: spine.cases) auto
  then obtain f where "length (nodes t) = Suc f" by (cases "nodes t") auto
  with T0(1) obtain Ts where "T0 = Node 0 Ts"
    using subtree_Suc_Some [of f t 0 T0] by auto
  with T0 show ?thesis by (simp add: ast_def)
qed

section \<open>The parser and the acceptor run in step\<close>




lemma step_outside_tag:
  assumes "\<not> (\<not> isToken item \<and> top st = Some sc_tag)"
  shows "case automaton (stack st) item of
           None \<Rightarrow> (\<exists>e. step tags st item = Inl e)
         | Some stk' \<Rightarrow>
             (\<exists>st'. step tags st item = Inr st' \<and> stack st' = stk' \<and> head st' = head st
                \<and> (tree st' = tree st \<or> (\<exists>x. tree st' = appendChild (tree st) (head st) x)))"
  using assms
  unfolding step_def Let_def automaton_def
  by (auto simp: top_top_of isToken_iff push_def pop_def append_node_def top_of_def)

lemma automaton_tag_interior:
  "\<not> isToken item \<Longrightarrow> top st = Some sc_tag \<Longrightarrow> automaton (stack st) item = Some (stack st)"
  by (auto simp: automaton_def top_top_of isToken_iff)

lemma tag_item_sim:
  assumes sp: "spine (tree st) (head st) path"
    and m: "TAG item = Some (nm, sg)" and l: "tag tags nm = Entry (ctor, ty)"
  shows "case nest path (ctor, ty) of
           None \<Rightarrow> (\<exists>e. tag_item tags st item = Inl e)
         | Some path' \<Rightarrow>
             (\<exists>st'. tag_item tags st item = Inr st' \<and> stack st' = stack st
                \<and> spine (tree st') (head st') path')"
proof (cases ty)
  case tag_start
  show ?thesis
  proof (cases "singular ctor")
    case True
    with tag_start m l spine_append [OF sp] show ?thesis
      by (simp add: tag_item_def Let_def append_node_def)
  next
    case False
    with tag_start m l spine_descend [OF sp, of tag_start ctor nm "trim sg"] show ?thesis
      by (simp add: tag_item_def Let_def append_node_def)
  qed
next
  case tag_end
  from sp show ?thesis
  proof (cases rule: spine.cases)
    case (spine_root T)
    with tag_end m l show ?thesis
      by (simp add: tag_item_def Let_def)
  next
    case (spine_node p path0 c nm0 r sg0 cs T)
    note na = spine_node_at [OF sp]
    show ?thesis
    proof (cases "c = ctor")
      case False
      with tag_end m l spine_node na show ?thesis
        by (simp add: tag_item_def Let_def)
    next
      case True
      show ?thesis
      proof (cases r)
        case tag_start
        with True tag_end m l spine_node na show ?thesis
          by (simp add: tag_item_def Let_def)
      next
        case r: tag_inside
        with spine_node have "path0 \<noteq> []" by simp
        with spine_node(2) obtain g path1 b where
          g: "parent_of (tree st) p = Some g" "spine (tree st) g path1" "path0 = b # path1"
          by (cases rule: spine.cases) auto
        with r True tag_end m l spine_node na show ?thesis
          by (simp add: tag_item_def Let_def)
      next
        case tag_end
        with spine_node show ?thesis by simp
      qed
    qed
  qed
next
  case tag_inside
  from sp show ?thesis
  proof (cases rule: spine.cases)
    case (spine_root T)
    with tag_inside m l show ?thesis
      by (simp add: tag_item_def Let_def)
  next
    case (spine_node p path0 c nm0 r sg0 cs T)
    note na = spine_node_at [OF sp]
    show ?thesis
    proof (cases "c = ctor")
      case False
      with tag_inside m l spine_node na show ?thesis
        by (simp add: tag_item_def Let_def)
    next
      case True
      have "spine (appendChild (tree st) (head st) (Tag ctor nm tag_inside (trim sg)))
              (fresh (tree st)) ((ctor, tag_inside) # path)"
        using spine_node(1) by (intro spine_descend [OF sp]) simp_all
      with True tag_inside m l spine_node na show ?thesis
        by (simp add: tag_item_def Let_def append_node_def)
    qed
  qed
qed

lemma step_sim:
  assumes sp: "spine (tree st) (head st) path"
  shows "case accept_step tags (stack st, path) item of
           None \<Rightarrow> (\<exists>e. step tags st item = Inl e)
         | Some (stk', path') \<Rightarrow>
             (\<exists>st'. step tags st item = Inr st' \<and> stack st' = stk'
                \<and> spine (tree st') (head st') path')"
proof (cases "\<not> isToken item \<and> top st = Some sc_tag")
  case True
  then have st: "step tags st item = tag_item tags (count_lines st item) item"
    by (simp add: step_tag_scope)
  have au: "automaton (stack st) item = Some (stack st)"
    using True by (simp add: automaton_tag_interior)
  have sp1: "spine (tree (count_lines st item)) (head (count_lines st item)) path"
    using sp by simp
  show ?thesis
  proof (cases "TAG item")
    case None
    with True au st show ?thesis
      by (simp add: accept_step_def top_top_of tag_item_def)
  next
    case (Some ns)
    obtain nm sg where ns: "ns = (nm, sg)" by (cases ns)
    show ?thesis
    proof (cases "tag tags nm")
      case Undefined
      with True au st Some ns show ?thesis
        by (simp add: accept_step_def top_top_of tag_item_def)
    next
      case Inherited
      with True au st Some ns show ?thesis
        by (simp add: accept_step_def top_top_of tag_item_def)
    next
      case (Entry fr)
      obtain ctor ty where fr: "fr = (ctor, ty)" by (cases fr)
      from tag_item_sim [OF sp1, of item nm sg tags ctor ty] \<open>TAG item = Some ns\<close> ns Entry fr
      have "case nest path (ctor, ty) of
              None \<Rightarrow> (\<exists>e. step tags st item = Inl e)
            | Some path' \<Rightarrow>
                (\<exists>st'. step tags st item = Inr st' \<and> stack st' = stack st
                   \<and> spine (tree st') (head st') path')"
        by (simp add: st split: option.splits)
      with True au \<open>TAG item = Some ns\<close> ns Entry fr show ?thesis
        by (auto simp: accept_step_def top_top_of split: option.splits)
    qed
  qed
next
  case False
  then have ac: "accept_step tags (stack st, path) item =
      map_option (\<lambda>stk'. (stk', path)) (automaton (stack st) item)"
    by (auto simp: accept_step_def top_top_of split: option.splits)
  from step_outside_tag [OF False, of tags] sp spine_append [OF sp] show ?thesis
    unfolding ac by (auto split: option.splits)
qed

lemma loop_sim:
  assumes "spine (tree st) (head st) path"
  shows "case accept tags (stack st, path) items of
           None \<Rightarrow> (\<exists>e. loop tags st items = Inl e)
         | Some (stk', path') \<Rightarrow>
             (\<exists>st'. loop tags st items = Inr st' \<and> stack st' = stk'
                \<and> spine (tree st') (head st') path')"
  using assms
proof (induction items arbitrary: st path)
  case Nil
  then show ?case by simp
next
  case (Cons item items)
  show ?case
  proof (cases "accept_step tags (stack st, path) item")
    case None
    with step_sim [OF Cons.prems, of tags item] show ?thesis by auto
  next
    case (Some s1)
    obtain stk1 path1 where s1: "s1 = (stk1, path1)" by (cases s1)
    with Some step_sim [OF Cons.prems, of tags item] obtain st1 where
      st1: "step tags st item = Inr st1" "stack st1 = stk1" "spine (tree st1) (head st1) path1"
      by auto
    from Cons.IH [OF st1(3)] st1 Some s1 show ?thesis
      by (auto split: option.splits)
  qed
qed

lemma reachable_spine:
  assumes "loop tags init items = Inr st"
  shows "\<exists>path. spine (tree st) (head st) path"
  using loop_sim [OF spine_init, of tags items] assms
  by (auto split: option.splits)

lemma parse_spine:
  assumes "parse tags contents = Inr (t, r)"
  shows "r = 0 \<and> spine t 0 []"
proof -
  from assms obtain st where st: "loop tags init (split contents) = Inr st"
      "head st = root" "r = root" "t = tree st"
    by (auto simp: parse_def finish_Inr split: sum.splits)
  from reachable_spine [OF st(1)] obtain path where p: "spine (tree st) (head st) path"
    by auto
  from spine_root_iff [OF p] st(2) have "path = []" by (simp add: root_def)
  with p st show ?thesis by (simp add: root_def)
qed

text \<open>
  The model's error \<open>NullCursor\<close> never occurs: an Inside node always has a
  grandparent.
\<close>

lemma tag_item_not_null:
  assumes "spine (tree st) (head st) path"
  shows "tag_item tags st item \<noteq> Inl NullCursor"
proof (cases "node_at (tree st) (head st)")
  case None
  then show ?thesis
    by (auto simp: tag_item_def Let_def split: option.splits tag_type.splits tag_lookup.splits)
next
  case (Some x)
  show ?thesis
  proof (cases x)
    case (Tag c nm r sg)
    with Some spine_tag_parent [OF assms, of c nm r sg] show ?thesis
      by (auto simp: tag_item_def Let_def split: option.splits tag_type.splits tag_lookup.splits)
  qed (use Some in \<open>auto simp: tag_item_def Let_def split: option.splits tag_type.splits tag_lookup.splits\<close>)
qed

lemma step_not_null:
  assumes "spine (tree st) (head st) path"
  shows "step tags st item \<noteq> Inl NullCursor"
proof (cases "\<not> isToken item \<and> top st = Some sc_tag")
  case True
  have "spine (tree (count_lines st item)) (head (count_lines st item)) path"
    using assms by simp
  from tag_item_not_null [OF this] True show ?thesis
    by (simp add: step_tag_scope)
next
  case False
  then show ?thesis
    unfolding step_def Let_def by (auto simp: isToken_iff)
qed

lemma loop_not_null:
  assumes "spine (tree st) (head st) path"
  shows "loop tags st items \<noteq> Inl NullCursor"
  using assms
proof (induction items arbitrary: st path)
  case Nil
  then show ?case by simp
next
  case (Cons item items)
  show ?case
  proof (cases "step tags st item")
    case (Inl e)
    with step_not_null [OF Cons.prems, of tags item] show ?thesis by simp
  next
    case (Inr st1)
    with step_sim [OF Cons.prems, of tags item] obtain path1 where
      "spine (tree st1) (head st1) path1"
      by (auto split: option.splits)
    from Cons.IH [OF this] Inr show ?thesis by simp
  qed
qed

lemma parse_never_NullCursor: "parse tags contents \<noteq> Inl NullCursor"
  using loop_not_null [OF spine_init, of tags "split contents"]
  by (auto simp: parse_def finish_def split: sum.splits)

section \<open>Items and text\<close>






lemma kept_Nil [simp]: "kept stk [] = []"
  by (simp add: kept_def)




section \<open>The tag name\<close>


section \<open>Properly nested tags are accepted\<close>



section \<open>Parsing succeeds on properly nested templates and keeps their content\<close>






section \<open>The cursor\<close>

text \<open>
  One step in tag scope, in every state the loop reaches, for an item whose name the
  registry routes to a class and a role: a non-singular Start node is appended under the
  cursor and becomes the cursor; a singular Start node is appended and the cursor stays;
  an End of the cursor's class moves the cursor to the parent of the cursor when the cursor
  is a Start node, and to the grandparent of the cursor when it is an Inside node (both
  exist); an Inside node of the cursor's class is appended under the cursor and becomes the
  cursor. Appending makes the cursor the parent of the new node and the new node the last
  child of the cursor.
\<close>

lemma cursor_step_rules:
  assumes "loop tags init before = Inr st"
    and "top st = Some sc_tag" and "\<not> isToken item"
    and "TAG item = Some (tagName, signature)"
    and "tag tags tagName = Entry (ctor, type)"
  shows "(type = tag_start \<and> \<not> singular ctor \<longrightarrow>
            step tags st item =
              Inr ((count_lines st item)\<lparr>tree := appendChild (tree st) (head st)
                     (Tag ctor tagName type (trim signature)), head := fresh (tree st)\<rparr>))
       \<and> (type = tag_start \<and> singular ctor \<longrightarrow>
            step tags st item =
              Inr ((count_lines st item)\<lparr>tree := appendChild (tree st) (head st)
                     (Tag ctor tagName type (trim signature))\<rparr>))
       \<and> (type = tag_end \<and> node_at (tree st) (head st) = Some (Tag ctor nm tag_start sg) \<longrightarrow>
            (\<exists>p. parent_of (tree st) (head st) = Some p
               \<and> step tags st item = Inr ((count_lines st item)\<lparr>head := p\<rparr>)))
       \<and> (type = tag_end \<and> node_at (tree st) (head st) = Some (Tag ctor nm tag_inside sg) \<longrightarrow>
            (\<exists>p g. parent_of (tree st) (head st) = Some p \<and> parent_of (tree st) p = Some g
               \<and> step tags st item = Inr ((count_lines st item)\<lparr>head := g\<rparr>)))
       \<and> (type = tag_inside \<and> map_option node_ctor (node_at (tree st) (head st)) = Some (Some ctor) \<longrightarrow>
            step tags st item =
              Inr ((count_lines st item)\<lparr>tree := appendChild (tree st) (head st)
                     (Tag ctor tagName type (trim signature)), head := fresh (tree st)\<rparr>))
       \<and> parent_of (appendChild (tree st) (head st) n) (fresh (tree st)) = Some (head st)
       \<and> children_of (appendChild (tree st) (head st) n) (head st)
            = children_of (tree st) (head st) @ [fresh (tree st)]"
proof -
  from reachable_spine [OF assms(1)] obtain path where sp: "spine (tree st) (head st) path"
    by auto
  note st = step_tag_scope [OF assms(2,3), of tags]
  have a: "type = tag_start \<and> \<not> singular ctor \<longrightarrow>
            step tags st item =
              Inr ((count_lines st item)\<lparr>tree := appendChild (tree st) (head st)
                     (Tag ctor tagName type (trim signature)), head := fresh (tree st)\<rparr>)"
    using assms(4,5) by (simp add: st tag_item_def Let_def append_node_def)
  have b: "type = tag_start \<and> singular ctor \<longrightarrow>
            step tags st item =
              Inr ((count_lines st item)\<lparr>tree := appendChild (tree st) (head st)
                     (Tag ctor tagName type (trim signature))\<rparr>)"
    using assms(4,5) by (simp add: st tag_item_def Let_def append_node_def)
  have c: "type = tag_end \<and> node_at (tree st) (head st) = Some (Tag ctor nm tag_start sg) \<longrightarrow>
            (\<exists>p. parent_of (tree st) (head st) = Some p
               \<and> step tags st item = Inr ((count_lines st item)\<lparr>head := p\<rparr>))"
  proof
    assume h: "type = tag_end \<and> node_at (tree st) (head st) = Some (Tag ctor nm tag_start sg)"
    with spine_tag_parent [OF sp, of ctor nm tag_start sg] obtain p where
      "parent_of (tree st) (head st) = Some p" by auto
    with h assms(4,5) show "\<exists>p. parent_of (tree st) (head st) = Some p
               \<and> step tags st item = Inr ((count_lines st item)\<lparr>head := p\<rparr>)"
      by (simp add: st tag_item_def Let_def)
  qed
  have d: "type = tag_end \<and> node_at (tree st) (head st) = Some (Tag ctor nm tag_inside sg) \<longrightarrow>
            (\<exists>p g. parent_of (tree st) (head st) = Some p \<and> parent_of (tree st) p = Some g
               \<and> step tags st item = Inr ((count_lines st item)\<lparr>head := g\<rparr>))"
  proof
    assume h: "type = tag_end \<and> node_at (tree st) (head st) = Some (Tag ctor nm tag_inside sg)"
    with spine_tag_parent [OF sp, of ctor nm tag_inside sg] obtain p g where
      "parent_of (tree st) (head st) = Some p" "parent_of (tree st) p = Some g" by auto
    with h assms(4,5) show "\<exists>p g. parent_of (tree st) (head st) = Some p \<and> parent_of (tree st) p = Some g
               \<and> step tags st item = Inr ((count_lines st item)\<lparr>head := g\<rparr>)"
      by (simp add: st tag_item_def Let_def)
  qed
  have e: "type = tag_inside \<and> map_option node_ctor (node_at (tree st) (head st)) = Some (Some ctor) \<longrightarrow>
            step tags st item =
              Inr ((count_lines st item)\<lparr>tree := appendChild (tree st) (head st)
                     (Tag ctor tagName type (trim signature)), head := fresh (tree st)\<rparr>)"
  proof
    assume h: "type = tag_inside \<and> map_option node_ctor (node_at (tree st) (head st)) = Some (Some ctor)"
    then obtain x where x: "node_at (tree st) (head st) = Some x" "node_ctor x = Some ctor"
      by auto
    then obtain nm' r' sg' where "x = Tag ctor nm' r' sg'"
      by (cases x) auto
    with x spine_tag_parent [OF sp, of ctor nm' r' sg'] obtain p where
      "parent_of (tree st) (head st) = Some p" by auto
    with h assms(4,5) show "step tags st item =
              Inr ((count_lines st item)\<lparr>tree := appendChild (tree st) (head st)
                     (Tag ctor tagName type (trim signature)), head := fresh (tree st)\<rparr>)"
      by (simp add: st tag_item_def Let_def append_node_def)
  qed
  show ?thesis
    using a b c d e by (simp add: appendChild_def)
qed

text \<open>No other item moves the cursor.\<close>

lemma cursor_unchanged_outside_tag:
  assumes "\<not> (\<not> isToken item \<and> top st = Some sc_tag)" and "step tags st item = Inr st'"
  shows "head st' = head st"
  using step_outside_tag [OF assms(1), of tags] assms(2)
  by (auto split: option.splits)

text \<open>
  C4 at a conditional with two Inside tags,
  \<^verbatim>\<open>{% if a %}x{% elseif b %}y{% else %}z{% endif %}w\<close>. The second Inside node is
  appended under the first, so when the End tag is read the cursor is the node of
  \<^verbatim>\<open>else\<close> (handle 6), whose parent is the node of \<^verbatim>\<open>elseif\<close> (handle 4) and
  whose grandparent is the Start node of \<^verbatim>\<open>if\<close> (handle 2): the End tag moves the
  cursor to the Start node, not to its parent, the root. The Start node is the cursor again
  after its End tag, the text after the End tag becomes its child, and the template is
  rejected as left unclosed. With one Inside tag the same End tag moves the cursor to the
  root and the template parses.
\<close>

theorem end_after_two_inside_tags_returns_to_start:
  "head (state_after example_tags
           (butlast (split ''{% if a %}x{% elseif b %}y{% else %}z{%''))) = 6
   \<and> node_at (tree (state_after example_tags
           (butlast (split ''{% if a %}x{% elseif b %}y{% else %}z{%'')))) 6
       = Some (Tag IfTag ''else'' tag_inside [])
   \<and> parent_of (tree (state_after example_tags
           (butlast (split ''{% if a %}x{% elseif b %}y{% else %}z{%'')))) 6 = Some 4
   \<and> parent_of (tree (state_after example_tags
           (butlast (split ''{% if a %}x{% elseif b %}y{% else %}z{%'')))) 4 = Some 2
   \<and> map_sum id head
        (step example_tags
           (state_after example_tags (butlast (split ''{% if a %}x{% elseif b %}y{% else %}z{%'')))
           '' endif '') = Inr 2
   \<and> node_at (tree (state_after example_tags
           (butlast (split ''{% if a %}x{% elseif b %}y{% else %}z{%'')))) 2
       = Some (Tag IfTag ''if'' tag_start ''a'')
   \<and> parent_of (tree (state_after example_tags
           (butlast (split ''{% if a %}x{% elseif b %}y{% else %}z{%'')))) 2 = Some 0
   \<and> nodes (tree (state_after example_tags
           (split ''{% if a %}x{% elseif b %}y{% else %}z{% endif %}w''))) ! 8 = Text ''w''
   \<and> parent_of (tree (state_after example_tags
           (split ''{% if a %}x{% elseif b %}y{% else %}z{% endif %}w''))) 8 = Some 2
   \<and> failure (parse example_tags ''{% if a %}x{% elseif b %}y{% else %}z{% endif %}w'')
       = Some (LeftUnclosed (Some (Tag IfTag ''if'' tag_start ''a'')))
   \<and> map_sum id head
        (step example_tags
           (state_after example_tags (butlast (split ''{% if a %}x{% else %}z{%'')))
           '' endif '') = Inr 0
   \<and> failure (parse example_tags ''{% if a %}x{% else %}z{% endif %}w'') = None"
  by code_simp

section \<open>Errors at the end of the input and at a closing tag\<close>





section \<open>The earlier engine on templates without tags\<close>

lemma steps_agree:
  "sc_tag \<notin> set (stack st) \<Longrightarrow> item \<noteq> TSTART \<Longrightarrow> Feuille_step tags1 st item = step tags2 st item"
  using top_not_tag [of "count_lines st item"]
  by (simp add: Feuille_step_def step_def Let_def)

lemma step_keeps_no_tag:
  "sc_tag \<notin> set (stack st) \<Longrightarrow> item \<noteq> TSTART \<Longrightarrow> step tags st item = Inr st' \<Longrightarrow>
   sc_tag \<notin> set (stack st')"
  using top_not_tag [of "count_lines st item"]
  by (auto simp: step_def Let_def push_def pop_def append_node_def split: if_splits
      dest: in_set_butlastD)

lemma loops_agree:
  "sc_tag \<notin> set (stack st) \<Longrightarrow> TSTART \<notin> set items \<Longrightarrow>
   Feuille_loop tags1 st items = loop tags2 st items"
proof (induction items arbitrary: st)
  case Nil
  then show ?case by simp
next
  case (Cons item items)
  then have eq: "Feuille_step tags1 st item = step tags2 st item"
    by (intro steps_agree) auto
  show ?case
  proof (cases "step tags2 st item")
    case (Inl e)
    with eq show ?thesis by simp
  next
    case (Inr st')
    with Cons.prems have "sc_tag \<notin> set (stack st')"
      by (intro step_keeps_no_tag [of st item tags2 st']) auto
    with Cons Inr eq show ?thesis by simp
  qed
qed

lemma split_from_sublist: "x \<in> set (split_from lit s) \<Longrightarrow> sublist x (lit @ s)"
proof (induction lit s rule: split_from.induct)
  case (1 lit)
  then show ?case by simp
next
  case (2 lit c)
  then show ?case by simp
next
  case (3 lit a b cs)
  show ?case
  proof (cases "isToken [a, b]")
    case True
    with 3 consider "x = lit" | "x = [a, b]" | "x \<in> set (split_from [] cs)"
      by auto
    then show ?thesis
    proof cases
      case 1
      then show ?thesis by simp
    next
      case 2
      have "lit @ a # b # cs = lit @ [a, b] @ cs" by simp
      then show ?thesis unfolding 2 sublist_def by blast
    next
      case 3
      with "3.IH"(1) True have "sublist x cs" by simp
      then obtain u v where "cs = u @ x @ v" by (auto simp: sublist_def)
      then have "lit @ a # b # cs = (lit @ a # b # u) @ x @ v" by simp
      then show ?thesis unfolding sublist_def by blast
    qed
  next
    case False
    with 3 show ?thesis by simp
  qed
qed

lemma init_no_tag: "sc_tag \<notin> set (stack init)"
  by (simp add: init_def)

text \<open>
  C10. On a template in which the tag-open delimiter does not occur, \<open>Feuille_parse\<close>
  and \<open>parse\<close> give the same result, whatever the two registries hold: the same
  error, with the same line, or the same tree; and their loops agree on every prefix of the
  items, so a rejection happens at the same item.
\<close>

theorem Feuille_agrees_without_tag_open:
  assumes "\<not> sublist TSTART contents"
  shows "Feuille_parse tags1 contents = parse tags2 contents
       \<and> Feuille_loop tags1 init (take n (split contents)) = loop tags2 init (take n (split contents))"
proof -
  have no: "TSTART \<notin> set (split contents)"
    using assms split_from_sublist [of TSTART "[]" contents] by (auto simp: split_def)
  then have "TSTART \<notin> set (take n (split contents))"
    by (auto dest: in_set_takeD)
  with no show ?thesis
    using loops_agree [OF init_no_tag, of "split contents" tags1 tags2]
      loops_agree [OF init_no_tag, of "take n (split contents)" tags1 tags2]
    by (simp add: Feuille_parse_def parse_def)
qed

theorem Feuille_agrees_witness:
  "Feuille_parse example_tags ''a{{ x }}b{# c #}'' = parse Map.empty ''a{{ x }}b{# c #}''
   \<and> failure (parse Map.empty ''a{{ x }}b{# c #}'') = None
   \<and> Feuille_parse example_tags ''a}}'' = parse Map.empty ''a}}''
   \<and> failure (parse Map.empty ''a}}'') = Some (Unexpected 1 EEND)"
proof -
  have 1: "\<not> sublist TSTART ''a{{ x }}b{# c #}''" "\<not> sublist TSTART ''a}}''"
    by code_simp+
  have 2: "failure (parse Map.empty ''a{{ x }}b{# c #}'') = None"
    "failure (parse Map.empty ''a}}'') = Some (Unexpected 1 EEND)"
    by code_simp+
  from Feuille_agrees_without_tag_open [OF 1(1), of example_tags Map.empty 0, THEN conjunct1]
    Feuille_agrees_without_tag_open [OF 1(2), of example_tags Map.empty 0, THEN conjunct1] 2
  show ?thesis by (intro conjI)
qed

section \<open>The render engine joins children in document order\<close>

lemma children_loop_acc:
  "children_loop render cs res outer_scope condition w =
     (case children_loop render cs [] outer_scope condition w of
        (s, w1) \<Rightarrow> (concat res @ s, w1))"
proof (induction cs arbitrary: res w)
  case Nil
  then show ?case by simp
next
  case (Cons c cs)
  obtain s w1 where a: "Sontag_apply render c outer_scope condition w = (s, w1)"
    by (cases "Sontag_apply render c outer_scope condition w")
  obtain ss w2 where b: "children_loop render cs [] outer_scope condition w1 = (ss, w2)"
    by (cases "children_loop render cs [] outer_scope condition w1")
  show ?case
    using Cons.IH [of "res @ [s]" w1] Cons.IH [of "[s]" w1] a b by simp
qed

lemma children_loop_outputs:
  "children_loop render cs [] outer_scope condition w =
     (case child_outputs render cs outer_scope condition w of (ss, w1) \<Rightarrow> (concat ss, w1))"
proof (induction cs arbitrary: w)
  case Nil
  then show ?case by simp
next
  case (Cons c cs)
  obtain s w1 where a: "Sontag_apply render c outer_scope condition w = (s, w1)"
    by (cases "Sontag_apply render c outer_scope condition w")
  obtain ss w2 where b: "child_outputs render cs outer_scope condition w1 = (ss, w2)"
    by (cases "child_outputs render cs outer_scope condition w1")
  from Cons.IH [of w1] a b children_loop_acc [of render cs "[s]" outer_scope condition w1]
  show ?case by simp
qed

lemma length_child_outputs:
  "length (fst (child_outputs render cs outer_scope condition w)) = length cs"
proof (induction cs arbitrary: w)
  case Nil
  then show ?case by simp
next
  case (Cons c cs)
  obtain s w1 where a: "Sontag_apply render c outer_scope condition w = (s, w1)"
    by (cases "Sontag_apply render c outer_scope condition w")
  obtain ss w2 where b: "child_outputs render cs outer_scope condition w1 = (ss, w2)"
    by (cases "child_outputs render cs outer_scope condition w1")
  from Cons.IH [of w1] a b show ?case by simp
qed

text \<open>
  C6. The closure handed to the render of a node is \<open>childrenRenderer render cs\<close>
  for the children \<open>cs\<close> of the node. Its string is the join, in the order of the
  child list, of the strings \<open>Sontag_apply\<close> yields for the children, one for each
  child, each child rendered in the world its elder sibling left: for no children the
  empty string, and for \<open>c # cs\<close> the string of \<open>c\<close> followed by the string
  of the closure for \<open>cs\<close>. This holds for every renderer and every world, so no
  amount of suspended work in a child changes the order.
\<close>

theorem children_joined_in_document_order:
  "childrenRenderer render cs outer_scope condition w =
     (concat (fst (child_outputs render cs outer_scope condition w)),
      snd (child_outputs render cs outer_scope condition w))
   \<and> length (fst (child_outputs render cs outer_scope condition w)) = length cs
   \<and> childrenRenderer render [] outer_scope condition w = ([], w)
   \<and> childrenRenderer render (c # cs) outer_scope condition w =
       (case Sontag_apply render c outer_scope condition w of
          (s, w1) \<Rightarrow>
            (case childrenRenderer render cs outer_scope condition w1 of
               (ss, w2) \<Rightarrow> (s @ ss, w2)))
   \<and> Sontag_apply render (Node n cs) scope selector w =
       (case render n scope (childrenRenderer render cs) w of
          (Resolved s, w1) \<Rightarrow> (s, w1)
        | (Deferred res, w1) \<Rightarrow> res selector w1)"
proof (intro conjI)
  show "childrenRenderer render cs outer_scope condition w =
     (concat (fst (child_outputs render cs outer_scope condition w)),
      snd (child_outputs render cs outer_scope condition w))"
    by (simp add: childrenRenderer_def children_loop_outputs split: prod.splits)
next
  show "length (fst (child_outputs render cs outer_scope condition w)) = length cs"
    by (rule length_child_outputs)
next
  show "childrenRenderer render [] outer_scope condition w = ([], w)"
    by (simp add: childrenRenderer_def)
next
  obtain s w1 where a: "Sontag_apply render c outer_scope condition w = (s, w1)"
    by (cases "Sontag_apply render c outer_scope condition w")
  show "childrenRenderer render (c # cs) outer_scope condition w =
       (case Sontag_apply render c outer_scope condition w of
          (s, w1) \<Rightarrow>
            (case childrenRenderer render cs outer_scope condition w1 of
               (ss, w2) \<Rightarrow> (s @ ss, w2)))"
    using children_loop_acc [of render cs "[s]" outer_scope condition w1] a
    by (simp add: childrenRenderer_def)
next
  show "Sontag_apply render (Node n cs) scope selector w =
       (case render n scope (childrenRenderer render cs) w of
          (Resolved s, w1) \<Rightarrow> (s, w1)
        | (Deferred res, w1) \<Rightarrow> res selector w1)"
    by (simp add: childrenRenderer_def)
qed

text \<open>
  An instance: the first child needs 100 ticks of suspended work, the second none; the
  text of the first still comes first. And the Start node of a conditional that hands down
  the selector \<^verbatim>\<open>else\<close> renders the content of that Inside child alone.
\<close>

lemma slow_child_first:
  "Sontag_apply example_render (Node Root [Node (Expression ''A'') [], Node (Text ''B'') []])
     () None 0 = (''AB'', 100)"
  by code_simp

lemma else_branch:
  "Sontag_apply example_render
     (Node (Tag IfTag ''if'' tag_start ''else'')
        [Node (Tag IfTag ''if'' tag_inside []) [Node (Text ''yes'') []],
         Node (Tag IfTag ''else'' tag_inside []) [Node (Text ''no'') []]])
     () None 0 = (''no'', 0)"
  by code_simp

text \<open>
  C7. When the render of a node returns a resolved string, that string is the output of
  \<open>Sontag_apply\<close> for the node, unchanged; when it returns a deferred function, the
  output is that function applied to the selector passed to this call of
  \<open>Sontag_apply\<close>. \<open>renderString\<close> applies the root node of the parsed tree
  with the scope made from the context and with an absent selector; a parse error is the
  result of \<open>renderString\<close>.
\<close>

theorem render_result_and_selector:
  "(render n scope (childrenRenderer render cs) w = (Resolved s, wa) \<longrightarrow>
      Sontag_apply render (Node n cs) scope selector w = (s, wa))
   \<and> (render n scope (childrenRenderer render cs) w = (Deferred res, wa) \<longrightarrow>
      Sontag_apply render (Node n cs) scope selector w = res selector wa)
   \<and> (parse tags contents = Inr (t, r) \<longrightarrow>
      (\<exists>children. ast t r = Some (Node Root children)
         \<and> renderString render tags global contents ctx w =
             Some (Inr (Sontag_apply render (Node Root children)
                          (create_scope global ctx) None w))))
   \<and> (parse tags contents = Inl e \<longrightarrow>
      renderString render tags global contents ctx w = Some (Inl e))"
proof (intro conjI impI)
  assume "render n scope (childrenRenderer render cs) w = (Resolved s, wa)"
  then show "Sontag_apply render (Node n cs) scope selector w = (s, wa)"
    by (simp add: childrenRenderer_def)
next
  assume "render n scope (childrenRenderer render cs) w = (Deferred res, wa)"
  then show "Sontag_apply render (Node n cs) scope selector w = res selector wa"
    by (simp add: childrenRenderer_def)
next
  assume p: "parse tags contents = Inr (t, r)"
  from parse_spine [OF p] ast_root_of_spine [of t] obtain children where
    "r = 0" "ast t 0 = Some (Node Root children)" by auto
  with p show "\<exists>children. ast t r = Some (Node Root children)
         \<and> renderString render tags global contents ctx w =
             Some (Inr (Sontag_apply render (Node Root children)
                          (create_scope global ctx) None w))"
    by (simp add: renderString_def)
next
  assume "parse tags contents = Inl e"
  then show "renderString render tags global contents ctx w = Some (Inl e)"
    by (simp add: renderString_def)
qed

theorem render_result_and_selector_witness:
  "Sontag_apply example_render (Node (Text ''a'') []) (Object Map.empty None :: unit jsobject)
       (Some ''s'') (0::nat) = (''a'', 0)
   \<and> Sontag_apply example_render
       (Node (Tag IfTag ''else'' tag_inside []) [Node (Text ''no'') []])
       (Object Map.empty None :: unit jsobject) (Some ''else'') 0
       = (''no'', 0)
   \<and> Sontag_apply example_render
       (Node (Tag IfTag ''else'' tag_inside []) [Node (Text ''no'') []])
       (Object Map.empty None :: unit jsobject) (Some ''if'') 0
       = ([], 0)
   \<and> (\<exists>children. renderString example_render example_tags (Object Map.empty None) ''a{{ x }}''
        (Object Map.empty None :: unit jsobject) 0 =
          Some (Inr (Sontag_apply example_render (Node Root children)
                       (create_scope (Object Map.empty None) (Object Map.empty None :: unit jsobject))
                       None 0)))
   \<and> renderString example_render example_tags (Object Map.empty None) ''a{{ x }}''
        (Object Map.empty None :: unit jsobject) 0 = Some (Inr (''a x '', 100))
   \<and> renderString example_render example_tags (Object Map.empty None) ''a{{ x''
        (Object Map.empty None :: unit jsobject) 0 = Some (Inl (UnexpectedEnd 1))"
proof -
  let ?cs = "[Node (Text ''no'') []]"
  let ?sc = "Object Map.empty None :: unit jsobject"
  let ?res = "\<lambda>condition w1. if condition = Some ''else''
       then childrenRenderer example_render ?cs ?sc None w1 else ([], w1::nat)"
  let ?p = "projr (parse example_tags ''a{{ x }}'')"
  have 1: "example_render (Text ''a'') ?sc (childrenRenderer example_render []) 0 = (Resolved ''a'', 0)"
    by simp
  have 2: "example_render (Tag IfTag ''else'' tag_inside []) ?sc (childrenRenderer example_render ?cs) 0
             = (Deferred ?res, 0)"
    by simp
  have 3: "?res (Some ''else'') 0 = (''no'', 0)" "?res (Some ''if'') 0 = ([], 0)"
    by (simp_all add: childrenRenderer_def)
  have 4: "failure (parse example_tags ''a{{ x'') = Some (UnexpectedEnd 1)"
    by code_simp
  from 4 have 4: "parse example_tags ''a{{ x'' = Inl (UnexpectedEnd 1)"
    by (simp add: failure_Some)
  have 5: "renderString example_render example_tags (Object Map.empty None) ''a{{ x }}''
        (Object Map.empty None :: unit jsobject) 0 = Some (Inr (''a x '', 100))"
    by code_simp
  have "failure (parse example_tags ''a{{ x }}'') = None"
    by code_simp
  then have 6: "parse example_tags ''a{{ x }}'' = Inr (fst ?p, snd ?p)"
    by (simp add: failure_None)
  note t = render_result_and_selector [where render = example_render and w = "0::nat" and wa = "0::nat"]
  from render_result_and_selector [where render = example_render and tags = example_tags
      and contents = "''a{{ x }}''" and t = "fst ?p" and r = "snd ?p" and global = ?sc
      and ctx = ?sc and w = "0::nat",
      THEN conjunct2, THEN conjunct2, THEN conjunct1, THEN mp, OF 6]
  have 7: "\<exists>children. renderString example_render example_tags ?sc ''a{{ x }}'' ?sc 0 =
          Some (Inr (Sontag_apply example_render (Node Root children)
                       (create_scope ?sc ?sc) None 0))"
    by blast
  note a1 = t [where n = "Text ''a''" and cs = "[]" and scope = ?sc and s = "''a''"
      and selector = "Some ''s''", THEN conjunct1, THEN mp, OF 1]
  note a2 = trans [OF t [where n = "Tag IfTag ''else'' tag_inside []" and cs = ?cs and scope = ?sc
      and res = ?res and selector = "Some ''else''", THEN conjunct2, THEN conjunct1, THEN mp, OF 2] 3(1)]
  note a3 = trans [OF t [where n = "Tag IfTag ''else'' tag_inside []" and cs = ?cs and scope = ?sc
      and res = ?res and selector = "Some ''if''", THEN conjunct2, THEN conjunct1, THEN mp, OF 2] 3(2)]
  note a4 = render_result_and_selector [where render = example_render and tags = example_tags
      and contents = "''a{{ x''" and e = "UnexpectedEnd 1" and global = "Object Map.empty None"
      and ctx = "Object Map.empty None :: unit jsobject" and w = "0::nat",
      THEN conjunct2, THEN conjunct2, THEN conjunct2, THEN mp, OF 4]
  from a1 a2 a3 7 5 a4 show ?thesis by (intro conjI) assumption
qed

section \<open>The scope object of the apply tag\<close>


end
